theory Spec2Isabelle
  imports Complex_Main
begin

section \<open>Decimal amounts\<close>

text \<open>
  The services compute with Python's \<^verbatim>\<open>decimal.Decimal\<close> under the default context:
  a precision of 28 significant digits and rounding \<^verbatim>\<open>ROUND_HALF_EVEN\<close>. A finite
  Decimal denotes a rational number. Constructing a Decimal and comparing two of them is exact;
  the result of \<^verbatim>\<open>+\<close>, \<^verbatim>\<open>-\<close>, \<^verbatim>\<open>*\<close>, \<^verbatim>\<open>/\<close> and \<^verbatim>\<open>abs\<close> is the exact result
  rounded to 28 significant digits. The model is on the values: a Decimal is the rational it
  denotes, and every operation of the source is the rounded operation below. The exponent
  limits of the context (magnitudes beyond \<open>10\<^sup>9\<^sup>9\<^sup>9\<^sup>9\<^sup>9\<^sup>9\<close>) and the special values are
  outside the model.
\<close>

type_synonym decimal = rat

text \<open>Rounding a rational to the nearest integer, ties to the even neighbour
  (\<^verbatim>\<open>ROUND_HALF_EVEN\<close>).\<close>

definition round_half_even :: "rat \<Rightarrow> int" where
  "round_half_even x =
     (let f = \<lfloor>x\<rfloor>; r = x - of_int f
      in if r < 1 / 2 then f
         else if 1 / 2 < r then f + 1
         else if even f then f else f + 1)"

text \<open>The number of decimal digits of a positive integer.\<close>

function ndigits :: "int \<Rightarrow> int" where
  "ndigits n = (if n < 10 then 1 else 1 + ndigits (n div 10))"
  by pat_completeness auto
termination
  by (relation "measure nat") auto

declare ndigits.simps [simp del]

text \<open>
  The exponent of the leading digit of a non-zero value (\<^verbatim>\<open>Decimal.adjusted()\<close>): the
  \<open>e\<close> with \<open>10\<^sup>e \<le> \<bar>x\<bar> < 10\<^sup>e\<^sup>+\<^sup>1\<close>. The digit counts of numerator and denominator
  give it up to one, and a comparison decides.
\<close>

definition adjusted :: "decimal \<Rightarrow> int" where
  "adjusted x =
     (let (p, q) = quotient_of \<bar>x\<bar>;
          d = ndigits p - ndigits q
      in if 10 powi d \<le> \<bar>x\<bar> then d else d - 1)"

text \<open>The rounding every arithmetic result goes through: to 28 significant digits, that is
  to a multiple of \<open>10\<^sup>e\<^sup>-\<^sup>2\<^sup>7\<close> for a value with leading exponent \<open>e\<close>, ties to even.\<close>

definition context_round :: "decimal \<Rightarrow> decimal" where
  "context_round x =
     (if x = 0 then 0
      else let unit = 10 powi (adjusted x - 27)
           in of_int (round_half_even (x / unit)) * unit)"

definition dec_add :: "decimal \<Rightarrow> decimal \<Rightarrow> decimal" where
  "dec_add x y = context_round (x + y)"

definition dec_sub :: "decimal \<Rightarrow> decimal \<Rightarrow> decimal" where
  "dec_sub x y = context_round (x - y)"

definition dec_mul :: "decimal \<Rightarrow> decimal \<Rightarrow> decimal" where
  "dec_mul x y = context_round (x * y)"

definition dec_div :: "decimal \<Rightarrow> decimal \<Rightarrow> decimal" where
  "dec_div x y = context_round (x / y)"

definition dec_abs :: "decimal \<Rightarrow> decimal" where
  "dec_abs x = context_round \<bar>x\<bar>"

text \<open>\<^verbatim>\<open>sum(xs)\<close> starts from the integer 0 and adds the elements from the left, each
  addition rounded.\<close>

definition py_sum :: "decimal list \<Rightarrow> decimal" where
  "py_sum xs = foldl dec_add 0 xs"

text \<open>\<^verbatim>\<open>int(x)\<close> on a Decimal truncates towards zero.\<close>

definition py_int :: "decimal \<Rightarrow> int" where
  "py_int x = (if 0 \<le> x then \<lfloor>x\<rfloor> else - \<lfloor>- x\<rfloor>)"

text \<open>An amount with two decimal digits: a whole number of cents.\<close>

definition whole_cents :: "decimal \<Rightarrow> bool" where
  "whole_cents x \<longleftrightarrow> of_int \<lfloor>x * 100\<rfloor> = x * 100"

text \<open>
  Whole-cent amounts whose magnitudes total less than \<open>10\<^sup>2\<^sup>6\<close>: every sum and difference
  of some of them is a whole number of cents of at most 28 digits, which the context leaves
  as it is.
\<close>

definition exact_range :: "decimal list \<Rightarrow> bool" where
  "exact_range xs \<longleftrightarrow> (\<forall>x\<in>set xs. whole_cents x) \<and> sum_list (map abs xs) < 10 ^ 26"

section \<open>Errors\<close>

text \<open>
  Every failure of the split engine is a \<^verbatim>\<open>ValueError\<close>; the raise sites differ in their
  message only. The message is kept as a value, together with the numbers the source formats
  into it. \<^verbatim>\<open>IndexError\<close> is what a list access out of range raises, and
  \<^verbatim>\<open>InvalidOperation\<close> what the decimal context raises.
\<close>

datatype message =
    Participants_must_be_positive
  | Amount_must_be_positive
  | Custom_amounts_do_not_sum decimal decimal decimal
  | Custom_amounts_cannot_be_negative
  | Percentages_must_sum_to_100 decimal
  | Percentages_cannot_be_negative
  | At_least_one_participant_required
  | Custom_amounts_must_be_provided
  | Percentages_must_be_provided
  | Max_of_empty_sequence
  | Not_in_list

datatype error = ValueError message | IndexError | InvalidOperation

text \<open>
  \<^verbatim>\<open>x.quantize(Decimal('0.01'), rounding=ROUND_HALF_EVEN)\<close> rounds \<^verbatim>\<open>x\<close> to a whole
  number of cents and raises \<^verbatim>\<open>InvalidOperation\<close> when the result has more than 28 digits.
\<close>

definition quantize :: "decimal \<Rightarrow> error + decimal" where
  "quantize x =
     (let cents = round_half_even (x * 100)
      in if 10 ^ 28 \<le> \<bar>cents\<bar> then Inl InvalidOperation else Inr (of_int cents / 100))"

section \<open>Split engine: equal split\<close>

text \<open>\<^verbatim>\<open>splits[i] += adjustment\<close>, which raises when \<^verbatim>\<open>i\<close> is out of range.\<close>

definition add_at :: "decimal \<Rightarrow> nat \<Rightarrow> decimal list \<Rightarrow> error + decimal list" where
  "add_at adjustment i splits =
     (if i < length splits then Inr (splits[i := dec_add (splits ! i) adjustment])
      else Inl IndexError)"

text \<open>\<^verbatim>\<open>for i in range(num_adjustments): splits[i] += adjustment\<close>\<close>

fun adjust_from :: "decimal \<Rightarrow> nat \<Rightarrow> nat \<Rightarrow> decimal list \<Rightarrow> error + decimal list" where
  "adjust_from adjustment i 0 splits = Inr splits"
| "adjust_from adjustment i (Suc k) splits =
     (case add_at adjustment i splits of
        Inl e \<Rightarrow> Inl e
      | Inr splits' \<Rightarrow> adjust_from adjustment (Suc i) k splits')"

definition split_equal :: "decimal \<Rightarrow> int \<Rightarrow> error + decimal list" where
  "split_equal amount num_participants =
     (if num_participants \<le> 0 then Inl (ValueError Participants_must_be_positive)
      else if amount \<le> 0 then Inl (ValueError Amount_must_be_positive)
      else
        case quantize (dec_div amount (of_int num_participants)) of
          Inl e \<Rightarrow> Inl e
        | Inr base \<Rightarrow>
            let splits = replicate (nat num_participants) base;
                total = py_sum splits;
                diff = dec_sub amount total
            in if diff \<noteq> 0 then
                 let adjustment = (if 0 < diff then 1 / 100 else - (1 / 100));
                     num_adjustments = nat \<bar>py_int (dec_mul diff 100)\<bar>
                 in adjust_from adjustment 0 num_adjustments splits
               else Inr splits)"

section \<open>Split engine: custom and percentage splits\<close>

text \<open>\<^verbatim>\<open>for amt in custom_amounts: if amt < 0: raise ValueError(...)\<close>\<close>

fun check_custom_amounts :: "decimal list \<Rightarrow> error option" where
  "check_custom_amounts [] = None"
| "check_custom_amounts (amt # rest) =
     (if amt < 0 then Some (ValueError Custom_amounts_cannot_be_negative)
      else check_custom_amounts rest)"

text \<open>The message of the first \<^verbatim>\<open>ValueError\<close> formats \<^verbatim>\<open>total\<close>, \<^verbatim>\<open>amount\<close> and
  \<^verbatim>\<open>amount - total\<close>.\<close>

definition split_custom :: "decimal \<Rightarrow> decimal list \<Rightarrow> error + decimal list" where
  "split_custom amount custom_amounts =
     (let total = py_sum custom_amounts
      in if total \<noteq> amount then
           Inl (ValueError (Custom_amounts_do_not_sum total amount (dec_sub amount total)))
         else case check_custom_amounts custom_amounts of
                Some e \<Rightarrow> Inl e
              | None \<Rightarrow> Inr custom_amounts)"

text \<open>One share: \<^verbatim>\<open>(amount * pct / 100).quantize(Decimal('0.01'), rounding=ROUND_HALF_EVEN)\<close>.\<close>

definition percentage_share :: "decimal \<Rightarrow> decimal \<Rightarrow> error + decimal" where
  "percentage_share amount pct = quantize (dec_div (dec_mul amount pct) 100)"

text \<open>The loop of \<^verbatim>\<open>split_percentage\<close> that appends one rounded amount per percentage.\<close>

fun percentage_amounts :: "decimal \<Rightarrow> decimal list \<Rightarrow> decimal list \<Rightarrow> error + decimal list" where
  "percentage_amounts amount [] splits = Inr splits"
| "percentage_amounts amount (pct # rest) splits =
     (if pct < 0 then Inl (ValueError Percentages_cannot_be_negative)
      else case percentage_share amount pct of
             Inl e \<Rightarrow> Inl e
           | Inr split_amount \<Rightarrow> percentage_amounts amount rest (splits @ [split_amount]))"

text \<open>\<^verbatim>\<open>max(splits)\<close>: the first of the largest elements; it raises on an empty list.\<close>

fun py_max :: "decimal list \<Rightarrow> error + decimal" where
  "py_max [] = Inl (ValueError Max_of_empty_sequence)"
| "py_max (x # xs) = Inr (foldl (\<lambda>m y. if m < y then y else m) x xs)"

text \<open>\<^verbatim>\<open>splits.index(v)\<close>: the first position holding \<^verbatim>\<open>v\<close>; it raises when there is
  none.\<close>

fun py_index :: "decimal \<Rightarrow> decimal list \<Rightarrow> error + nat" where
  "py_index v [] = Inl (ValueError Not_in_list)"
| "py_index v (x # xs) =
     (if x = v then Inr 0
      else case py_index v xs of Inl e \<Rightarrow> Inl e | Inr k \<Rightarrow> Inr (Suc k))"

definition split_percentage :: "decimal \<Rightarrow> decimal list \<Rightarrow> error + decimal list" where
  "split_percentage amount percentages =
     (let total_percentage = py_sum percentages
      in if 1 / 100 < dec_abs (dec_sub total_percentage 100) then
           Inl (ValueError (Percentages_must_sum_to_100 total_percentage))
         else case percentage_amounts amount percentages [] of
                Inl e \<Rightarrow> Inl e
              | Inr splits \<Rightarrow>
                  let total = py_sum splits;
                      diff = dec_sub amount total
                  in if diff \<noteq> 0 then
                       (case py_max splits of
                          Inl e \<Rightarrow> Inl e
                        | Inr largest \<Rightarrow>
                            (case py_index largest splits of
                               Inl e \<Rightarrow> Inl e
                             | Inr max_idx \<Rightarrow> add_at diff max_idx splits))
                     else Inr splits)"

section \<open>Dictionaries\<close>

text \<open>
  A Python dict keeps its keys in insertion order, and the debt simplifier's output depends
  on that order. A dict is an association list: a lookup reads the first entry of a key, an
  assignment replaces the entry of a present key in place and appends an absent one.
\<close>

type_synonym 'v dict = "(string \<times> 'v) list"

definition dict_get :: "'v dict \<Rightarrow> string \<Rightarrow> 'v \<Rightarrow> 'v" where
  "dict_get d k dflt = (case map_of d k of None \<Rightarrow> dflt | Some v \<Rightarrow> v)"

fun dict_set :: "'v dict \<Rightarrow> string \<Rightarrow> 'v \<Rightarrow> 'v dict" where
  "dict_set [] k v = [(k, v)]"
| "dict_set ((k', v') # d) k v =
     (if k' = k then (k, v) # d else (k', v') # dict_set d k v)"

text \<open>The dict comprehension \<^verbatim>\<open>{k: v for k, v in pairs}\<close>.\<close>

definition dict_of :: "(string \<times> 'v) list \<Rightarrow> 'v dict" where
  "dict_of pairs = foldl (\<lambda>d (k, v). dict_set d k v) [] pairs"

section \<open>Split engine: dispatch\<close>

datatype SplitType = EQUAL | CUSTOM | PERCENTAGE

text \<open>
  \<^verbatim>\<open>custom_amounts\<close> and \<^verbatim>\<open>percentages\<close> default to \<^verbatim>\<open>None\<close>; \<^verbatim>\<open>not xs\<close> holds for
  \<^verbatim>\<open>None\<close> and for the empty list. The final \<^verbatim>\<open>else\<close> of the source is not reachable for
  a value of the enumeration.
\<close>

definition create_splits ::
  "decimal \<Rightarrow> SplitType \<Rightarrow> string list \<Rightarrow> decimal list option \<Rightarrow> decimal list option
   \<Rightarrow> error + decimal dict" where
  "create_splits amount split_type participant_ids custom_amounts percentages =
     (let num_participants = length participant_ids
      in if num_participants = 0 then Inl (ValueError At_least_one_participant_required)
         else
           case (case split_type of
                   EQUAL \<Rightarrow> split_equal amount (int num_participants)
                 | CUSTOM \<Rightarrow>
                     (case custom_amounts of
                        None \<Rightarrow> Inl (ValueError Custom_amounts_must_be_provided)
                      | Some amounts \<Rightarrow>
                          if amounts = [] \<or> length amounts \<noteq> num_participants
                          then Inl (ValueError Custom_amounts_must_be_provided)
                          else split_custom amount amounts)
                 | PERCENTAGE \<Rightarrow>
                     (case percentages of
                        None \<Rightarrow> Inl (ValueError Percentages_must_be_provided)
                      | Some pcts \<Rightarrow>
                          if pcts = [] \<or> length pcts \<noteq> num_participants
                          then Inl (ValueError Percentages_must_be_provided)
                          else split_percentage amount pcts))
           of Inl e \<Rightarrow> Inl e
            | Inr split_amounts \<Rightarrow> Inr (dict_of (zip participant_ids split_amounts)))"

section \<open>Balance aggregation\<close>

record expense =
  expense_paid_by :: string
  expense_amount :: decimal
  expense_splits :: "(string \<times> decimal) list"

record settlement =
  settlement_paid_by :: string
  settlement_paid_to :: string
  settlement_amount :: decimal

text \<open>
  The records are the dicts the aggregator reads: an expense has \<^verbatim>\<open>paid_by\<close>,
  \<^verbatim>\<open>amount\<close> and \<^verbatim>\<open>splits\<close>, a settlement \<^verbatim>\<open>paid_by\<close>, \<^verbatim>\<open>paid_to\<close> and
  \<^verbatim>\<open>amount\<close>. \<^verbatim>\<open>Decimal(str(x))\<close> is the decimal value \<^verbatim>\<open>x\<close> is written as, so an
  amount is the decimal itself.

  The inner loop over \<^verbatim>\<open>expense['splits']\<close>; a split line is the pair of its
  \<^verbatim>\<open>user_id\<close> and \<^verbatim>\<open>amount\<close>.
\<close>

fun debit_splits :: "decimal dict \<Rightarrow> (string \<times> decimal) list \<Rightarrow> decimal dict" where
  "debit_splits balances [] = balances"
| "debit_splits balances ((user_id, split_amount) # rest) =
     debit_splits
       (dict_set balances user_id (dec_sub (dict_get balances user_id 0) split_amount)) rest"

fun process_expenses :: "decimal dict \<Rightarrow> expense list \<Rightarrow> decimal dict" where
  "process_expenses balances [] = balances"
| "process_expenses balances (e # rest) =
     (let payer_id = expense_paid_by e;
          total_amount = expense_amount e;
          balances' =
            dict_set balances payer_id (dec_add (dict_get balances payer_id 0) total_amount)
      in process_expenses (debit_splits balances' (expense_splits e)) rest)"

fun process_settlements :: "decimal dict \<Rightarrow> settlement list \<Rightarrow> decimal dict" where
  "process_settlements balances [] = balances"
| "process_settlements balances (s # rest) =
     (let paid_by = settlement_paid_by s;
          paid_to = settlement_paid_to s;
          amount = settlement_amount s;
          balances' = dict_set balances paid_by (dec_sub (dict_get balances paid_by 0) amount)
      in process_settlements
           (dict_set balances' paid_to (dec_add (dict_get balances' paid_to 0) amount)) rest)"

definition calculate_group_balances :: "expense list \<Rightarrow> settlement list \<Rightarrow> decimal dict" where
  "calculate_group_balances expenses settlements =
     process_settlements (process_expenses [] expenses) settlements"

definition verify_zero_sum :: "decimal dict \<Rightarrow> decimal \<Rightarrow> bool" where
  "verify_zero_sum balances tolerance \<longleftrightarrow> dec_abs (py_sum (map snd balances)) \<le> tolerance"

section \<open>Debt simplification\<close>

text \<open>\<^verbatim>\<open>xs.sort(key=lambda x: x[1], reverse=True)\<close>: a stable sort, largest amount first;
  entries with equal amounts keep their order.\<close>

definition sort_largest_first :: "(string \<times> decimal) list \<Rightarrow> (string \<times> decimal) list" where
  "sort_largest_first xs = sort_key (\<lambda>x. - snd x) xs"

text \<open>
  The state of the two-pointer loop: \<^verbatim>\<open>i\<close>, \<^verbatim>\<open>j\<close>, \<^verbatim>\<open>current_debt\<close>,
  \<^verbatim>\<open>current_credit\<close> and \<^verbatim>\<open>transactions\<close>.
\<close>

type_synonym sweep_state = "nat \<times> nat \<times> decimal \<times> decimal \<times> (string \<times> string \<times> decimal) list"

text \<open>The loop condition \<^verbatim>\<open>i < len(debtors) and j < len(creditors)\<close>.\<close>

definition sweep_cond ::
  "(string \<times> decimal) list \<Rightarrow> (string \<times> decimal) list \<Rightarrow> sweep_state \<Rightarrow> bool" where
  "sweep_cond debtors creditors = (\<lambda>(i, j, current_debt, current_credit, transactions).
     i < length debtors \<and> j < length creditors)"

text \<open>One pointer's update: it moves on when its remaining amount is below \<^verbatim>\<open>0.01\<close>, and
  loads the next entry's amount when there is one.\<close>

definition advance :: "(string \<times> decimal) list \<Rightarrow> nat \<Rightarrow> decimal \<Rightarrow> nat \<times> decimal" where
  "advance entries i current =
     (if current < 1 / 100 then
        (i + 1, if i + 1 < length entries then snd (entries ! (i + 1)) else current)
      else (i, current))"

text \<open>The loop body.\<close>

definition sweep_step ::
  "(string \<times> decimal) list \<Rightarrow> (string \<times> decimal) list \<Rightarrow> sweep_state \<Rightarrow> sweep_state" where
  "sweep_step debtors creditors = (\<lambda>(i, j, current_debt, current_credit, transactions).
     let debtor = fst (debtors ! i);
         creditor = fst (creditors ! j);
         settlement_amount = min current_debt current_credit;
         transactions' = transactions @ [(debtor, creditor, settlement_amount)];
         (i', current_debt') = advance debtors i (dec_sub current_debt settlement_amount);
         (j', current_credit') = advance creditors j (dec_sub current_credit settlement_amount)
     in (i', j', current_debt', current_credit', transactions'))"

definition remaining ::
  "(string \<times> decimal) list \<Rightarrow> (string \<times> decimal) list \<Rightarrow> sweep_state \<Rightarrow> nat" where
  "remaining debtors creditors = (\<lambda>(i, j, current_debt, current_credit, transactions).
     (length debtors - i) + (length creditors - j))"

function sweep ::
  "(string \<times> decimal) list \<Rightarrow> (string \<times> decimal) list \<Rightarrow> sweep_state
   \<Rightarrow> (string \<times> string \<times> decimal) list" where
  "sweep debtors creditors st =
     (if sweep_cond debtors creditors st
      then sweep debtors creditors (sweep_step debtors creditors st)
      else snd (snd (snd (snd st))))"
  by pat_completeness auto
termination
  by (relation "measure (\<lambda>(debtors, creditors, st). remaining debtors creditors st)")
     (auto simp: sweep_cond_def sweep_step_def remaining_def advance_def Let_def min_def
           dec_sub_def context_round_def split: prod.splits if_splits)

declare sweep.simps [simp del]

text \<open>The two lists the loop runs over (lines 36-42): the participants owing more than the
  tolerance, with the magnitude of their balance, and those owed more than the tolerance,
  each sorted largest first.\<close>

definition debtors_of :: "decimal dict \<Rightarrow> (string \<times> decimal) list" where
  "debtors_of balances = sort_largest_first
     (map (\<lambda>(user, balance). (user, dec_abs balance))
        (filter (\<lambda>(user, balance). balance < - (1 / 100)) balances))"

definition creditors_of :: "decimal dict \<Rightarrow> (string \<times> decimal) list" where
  "creditors_of balances = sort_largest_first
     (filter (\<lambda>(user, balance). 1 / 100 < balance) balances)"

definition simplify_debts :: "decimal dict \<Rightarrow> (string \<times> string \<times> decimal) list" where
  "simplify_debts balances =
     (let debtors = debtors_of balances;
          creditors = creditors_of balances;
          current_debt = (if debtors \<noteq> [] then snd (debtors ! 0) else 0);
          current_credit = (if creditors \<noteq> [] then snd (creditors ! 0) else 0)
      in sweep debtors creditors (0, 0, current_debt, current_credit, []))"

text \<open>
  Applying the instructions to a balance map, as the repository's tests do:
  \<^verbatim>\<open>final_balances[from_user] += amount; final_balances[to_user] -= amount\<close>. Both users
  of an instruction are keys of the map it was computed from, so the lookups do not fail.
\<close>

fun apply_transactions ::
  "decimal dict \<Rightarrow> (string \<times> string \<times> decimal) list \<Rightarrow> decimal dict" where
  "apply_transactions final_balances [] = final_balances"
| "apply_transactions final_balances ((from_user, to_user, amount) # rest) =
     (let b1 = dict_set final_balances from_user
                 (dec_add (dict_get final_balances from_user 0) amount);
          b2 = dict_set b1 to_user (dec_sub (dict_get b1 to_user 0) amount)
      in apply_transactions b2 rest)"

section \<open>Notions for the settlement property\<close>

text \<open>The components of an instruction \<^verbatim>\<open>(from_user, to_user, amount)\<close>.\<close>

definition amount_of :: "string \<times> string \<times> decimal \<Rightarrow> decimal" where
  "amount_of x = snd (snd x)"

definition payer_of :: "string \<times> string \<times> decimal \<Rightarrow> string" where
  "payer_of x = fst x"

definition receiver_of :: "string \<times> string \<times> decimal \<Rightarrow> string" where
  "receiver_of x = fst (snd x)"

text \<open>What the instructions move on one side for a user: the sum of the amounts of the
  instructions that name the user as payer, or as receiver.\<close>

definition moved ::
  "(string \<times> string \<times> decimal \<Rightarrow> string) \<Rightarrow> string
   \<Rightarrow> (string \<times> string \<times> decimal) list \<Rightarrow> decimal" where
  "moved party user transactions =
     sum_list (map amount_of (filter (\<lambda>x. party x = user) transactions))"

text \<open>
  The loop invariant of one pointer, over its list of entries: the entries before the pointer
  have been matched in full, the entry at the pointer up to its remaining amount, the entries
  after it not at all; the remaining amount is a whole number of cents, at least 0.01 and at
  most the entry's amount; every instruction moves a whole number of cents, not negative; the
  instructions total what has been matched.
\<close>

definition side_inv ::
  "(string \<times> string \<times> decimal \<Rightarrow> string) \<Rightarrow> (string \<times> decimal) list
   \<Rightarrow> nat \<Rightarrow> decimal \<Rightarrow> (string \<times> string \<times> decimal) list \<Rightarrow> bool" where
  "side_inv party entries i current transactions \<longleftrightarrow>
     i \<le> length entries \<and>
     (i < length entries \<longrightarrow>
        whole_cents current \<and> 1 / 100 \<le> current \<and> current \<le> snd (entries ! i) \<and>
        moved party (fst (entries ! i)) transactions = snd (entries ! i) - current) \<and>
     (\<forall>p<i. moved party (fst (entries ! p)) transactions = snd (entries ! p)) \<and>
     (\<forall>p. i < p \<and> p < length entries \<longrightarrow> fst (entries ! p) \<notin> party ` set transactions) \<and>
     (\<forall>x\<in>set transactions. whole_cents (amount_of x) \<and> 0 \<le> amount_of x) \<and>
     sum_list (map amount_of transactions)
       = sum_list (map snd (take i entries))
         + (if i < length entries then snd (entries ! i) - current else 0)"

definition sweep_inv ::
  "(string \<times> decimal) list \<Rightarrow> (string \<times> decimal) list \<Rightarrow> sweep_state \<Rightarrow> bool" where
  "sweep_inv debtors creditors = (\<lambda>(i, j, current_debt, current_credit, transactions).
     side_inv payer_of debtors i current_debt transactions \<and>
     side_inv receiver_of creditors j current_credit transactions)"

text \<open>The entries of a debtor or creditor list name each user once and hold whole-cent
  amounts above the tolerance and below \<open>10\<^sup>2\<^sup>6\<close>.\<close>

definition well_formed_entries :: "(string \<times> decimal) list \<Rightarrow> bool" where
  "well_formed_entries entries \<longleftrightarrow>
     distinct (map fst entries) \<and>
     (\<forall>e\<in>set entries. whole_cents (snd e) \<and> 1 / 100 < snd e \<and> snd e < 10 ^ 26)"

text \<open>The total the debtors (balance below \<open>-0.01\<close>) owe and the total the creditors
  (balance above \<open>0.01\<close>) are owed, as exact sums.\<close>

definition total_debt :: "decimal dict \<Rightarrow> decimal" where
  "total_debt balances =
     sum_list (map (\<lambda>e. \<bar>snd e\<bar>)
        (filter (\<lambda>(user, balance). balance < - (1 / 100)) balances))"

definition total_credit :: "decimal dict \<Rightarrow> decimal" where
  "total_credit balances =
     sum_list (map snd (filter (\<lambda>(user, balance). 1 / 100 < balance) balances))"

text \<open>
  The amounts the aggregator posts, in the order it posts them: for an expense its amount
  (credited to the payer) and the amount of each split line (debited from the line's user); for
  a settlement its amount twice (debited from the payer, credited to the receiver).
\<close>

definition expense_postings :: "expense \<Rightarrow> decimal list" where
  "expense_postings e = expense_amount e # map snd (expense_splits e)"

definition settlement_postings :: "settlement \<Rightarrow> decimal list" where
  "settlement_postings s = [settlement_amount s, settlement_amount s]"

definition postings :: "expense list \<Rightarrow> settlement list \<Rightarrow> decimal list" where
  "postings expenses settlements =
     concat (map expense_postings expenses) @ concat (map settlement_postings settlements)"

text \<open>The invariant of the aggregation: the balances are whole cents and their magnitudes
  total at most \<open>B\<close>.\<close>

definition dict_inv :: "decimal dict \<Rightarrow> decimal \<Rightarrow> bool" where
  "dict_inv d B \<longleftrightarrow>
     (\<forall>e\<in>set d. whole_cents (snd e)) \<and> sum_list (map (\<lambda>e. \<bar>snd e\<bar>) d) \<le> B"

section \<open>The decimal context\<close>

lemma ndigits_pos: "1 \<le> ndigits n"
proof (induction n rule: ndigits.induct)
  case (1 n)
  show ?case
  proof (cases "n < 10")
    case True
    then show ?thesis by (subst ndigits.simps) simp
  next
    case False
    with "1.IH" show ?thesis by (subst ndigits.simps) simp
  qed
qed

lemma ndigits_bounds:
  "0 < n \<Longrightarrow> 10 ^ nat (ndigits n - 1) \<le> n \<and> n < 10 ^ nat (ndigits n)"
proof (induction n rule: ndigits.induct)
  case (1 n)
  show ?case
  proof (cases "n < 10")
    case True
    then have "ndigits n = 1" by (subst ndigits.simps) simp
    with True "1.prems" show ?thesis by simp
  next
    case False
    let ?m = "n div 10"
    have m: "0 < ?m" using False by simp
    have nd: "ndigits n = 1 + ndigits ?m" using False by (subst ndigits.simps) simp
    from "1.IH"[OF False m] have lo: "10 ^ nat (ndigits ?m - 1) \<le> ?m"
      and hi: "?m < 10 ^ nat (ndigits ?m)" by simp_all
    have p: "1 \<le> ndigits ?m" by (rule ndigits_pos)
    have e1: "nat (ndigits n - 1) = Suc (nat (ndigits ?m - 1))" using nd p by simp
    have e2: "nat (ndigits n) = Suc (nat (ndigits ?m))" using nd p by simp
    have "10 * 10 ^ nat (ndigits ?m - 1) \<le> 10 * ?m" using lo by simp
    also have "\<dots> \<le> n" by simp
    finally have a: "10 ^ nat (ndigits n - 1) \<le> n" unfolding e1 by simp
    have "?m + 1 \<le> 10 ^ nat (ndigits ?m)" using hi by simp
    then have "10 * (?m + 1) \<le> 10 * 10 ^ nat (ndigits ?m)" by simp
    moreover have "n < 10 * (?m + 1)" by simp
    ultimately have b: "n < 10 ^ nat (ndigits n)" unfolding e2 by simp
    from a b show ?thesis ..
  qed
qed

lemma ndigits_powi:
  assumes "0 < n"
  shows "(10::rat) powi (ndigits n - 1) \<le> of_int n" "of_int n < (10::rat) powi ndigits n"
proof -
  from ndigits_bounds[OF assms] have lo: "10 ^ nat (ndigits n - 1) \<le> n"
    and hi: "n < 10 ^ nat (ndigits n)" by simp_all
  have p: "1 \<le> ndigits n" by (rule ndigits_pos)
  have "(of_int (10 ^ nat (ndigits n - 1)) :: rat) \<le> of_int n" using lo by (simp only: of_int_le_iff)
  then show "(10::rat) powi (ndigits n - 1) \<le> of_int n" using p by (simp add: power_int_def)
  have "(of_int n :: rat) < of_int (10 ^ nat (ndigits n))" using hi by (simp only: of_int_less_iff)
  then show "of_int n < (10::rat) powi ndigits n" using p by (simp add: power_int_def)
qed

text \<open>\<open>adjusted\<close> is the exponent of the leading digit.\<close>

lemma adjusted_bounds:
  assumes "x \<noteq> 0"
  shows "10 powi adjusted x \<le> \<bar>x\<bar>" "\<bar>x\<bar> < 10 powi (adjusted x + 1)"
proof -
  obtain p q where pq: "quotient_of \<bar>x\<bar> = (p, q)" by (cases "quotient_of \<bar>x\<bar>")
  then have q: "0 < q" and x: "\<bar>x\<bar> = of_int p / of_int q"
    by (simp_all add: quotient_of_denom_pos quotient_of_div)
  have "0 < \<bar>x\<bar>" using assms by simp
  then have p: "0 < p" using x q by (simp add: zero_less_divide_iff)
  define d where "d = ndigits p - ndigits q"
  have qr: "(0::rat) < of_int q" using q by simp
  have pw: "(0::rat) < 10 powi z" for z by (simp add: power_int_def)
  have lo: "10 powi (d - 1) \<le> \<bar>x\<bar>"
  proof -
    have "(10::rat) powi (d - 1) = 10 powi ((ndigits p - 1) - ndigits q)"
      by (rule arg_cong[where f="\<lambda>z. (10::rat) powi z"]) (simp add: d_def)
    also have "\<dots> = 10 powi (ndigits p - 1) / 10 powi ndigits q"
      by (subst power_int_diff) simp_all
    also have "\<dots> \<le> of_int p / of_int q"
      using ndigits_powi(1)[OF p] ndigits_powi(2)[OF q] qr pw p
      by (intro frac_le) simp_all
    finally show ?thesis by (simp add: x)
  qed
  have hi: "\<bar>x\<bar> < 10 powi (d + 1)"
  proof -
    have "of_int p / of_int q < (10::rat) powi ndigits p / of_int q"
      using ndigits_powi(2)[OF p] qr by (simp add: divide_strict_right_mono)
    also have "\<dots> \<le> 10 powi ndigits p / 10 powi (ndigits q - 1)"
      using ndigits_powi(1)[OF q] pw[of "ndigits p"] pw[of "ndigits q - 1"] qr
      by (intro divide_left_mono) (simp_all add: less_imp_le)
    also have "\<dots> = 10 powi (ndigits p - (ndigits q - 1))"
      by (subst power_int_diff) simp_all
    also have "\<dots> = 10 powi (d + 1)"
      by (rule arg_cong[where f="\<lambda>z. (10::rat) powi z"]) (simp add: d_def)
    finally show ?thesis by (simp add: x)
  qed
  have adj: "adjusted x = (if 10 powi d \<le> \<bar>x\<bar> then d else d - 1)"
    by (simp add: adjusted_def pq d_def)
  show "10 powi adjusted x \<le> \<bar>x\<bar>" using lo by (simp add: adj)
  show "\<bar>x\<bar> < 10 powi (adjusted x + 1)" using hi by (auto simp: adj not_le)
qed

lemma round_half_even_of_int: "round_half_even (of_int z) = z"
  by (simp add: round_half_even_def)

lemma round_half_even_bounds: "\<bar>of_int (round_half_even x) - x\<bar> \<le> 1 / 2"
  unfolding round_half_even_def Let_def
  by (auto simp: abs_if) linarith+

lemma powi_less_imp_less: "(10::rat) powi a < 10 powi b \<Longrightarrow> a < b"
proof (rule ccontr)
  assume l: "(10::rat) powi a < 10 powi b" and "\<not> a < b"
  then have "b \<le> a" by simp
  then have "(10::rat) powi b \<le> 10 powi a" by (intro power_int_increasing) simp_all
  with l show False by simp
qed

lemma context_round_zero: "context_round 0 = 0"
  by (simp add: context_round_def)

text \<open>A value with at most 28 significant digits is left as it is.\<close>

lemma context_round_exact:
  assumes c: "x * 10 powi m = of_int c" and b: "\<bar>c\<bar> < 10 ^ 28"
  shows "context_round x = x"
proof (cases "x = 0")
  case True
  then show ?thesis by (simp add: context_round_def)
next
  case False
  define e where "e = adjusted x"
  have x: "x = of_int c * 10 powi (- m)"
  proof -
    have "x = x * 10 powi m * 10 powi (- m)"
      by (simp add: power_int_minus)
    then show ?thesis by (simp only: c)
  qed
  have "\<bar>x\<bar> = of_int \<bar>c\<bar> * 10 powi (- m)"
    by (subst x) (simp add: abs_mult)
  also have "\<dots> < 10 ^ 28 * 10 powi (- m)"
  proof -
    have "(of_int \<bar>c\<bar> :: rat) < of_int (10 ^ 28)" using b by (simp only: of_int_less_iff)
    then show ?thesis by (simp add: mult_strict_right_mono)
  qed
  also have "\<dots> = 10 powi (28 - m)"
    by (simp add: power_int_diff power_int_minus divide_inverse)
  finally have "\<bar>x\<bar> < 10 powi (28 - m)" .
  with adjusted_bounds(1)[OF False] have "(10::rat) powi e < 10 powi (28 - m)"
    by (simp add: e_def)
  then have "e < 28 - m" by (rule powi_less_imp_less)
  then have s: "0 \<le> 27 - e - m" by simp
  define z where "z = c * 10 ^ nat (27 - e - m)"
  have "x / 10 powi (e - 27) = x * 10 powi (27 - e)"
    by (simp add: power_int_minus[symmetric] divide_inverse)
  also have "\<dots> = of_int c * (10 powi (- m) * 10 powi (27 - e))"
    by (subst x) simp
  also have "10 powi (- m) * 10 powi (27 - e) = (10::rat) powi (27 - e - m)"
    by (subst power_int_add[symmetric]) (simp_all add: algebra_simps)
  also have "(10::rat) powi (27 - e - m) = 10 ^ nat (27 - e - m)"
    using s by (simp add: power_int_def)
  finally have q: "x / 10 powi (e - 27) = of_int z" by (simp add: z_def)
  have "context_round x = of_int z * 10 powi (e - 27)"
    using False by (simp add: context_round_def e_def[symmetric] q round_half_even_of_int)
  also have "\<dots> = x / 10 powi (e - 27) * 10 powi (e - 27)" by (simp only: q)
  also have "\<dots> = x" by simp
  finally show ?thesis .
qed

text \<open>Rounding moves a value by at most half a unit of its 28th digit.\<close>

lemma context_round_error:
  assumes "x \<noteq> 0"
  shows "\<bar>context_round x - x\<bar> \<le> 10 powi (adjusted x - 27) / 2"
proof -
  define u where "u = (10::rat) powi (adjusted x - 27)"
  have u: "0 < u" by (simp add: u_def)
  have "context_round x - x = (of_int (round_half_even (x / u)) - x / u) * u"
    using assms u by (simp add: context_round_def u_def[symmetric] left_diff_distrib)
  then have "\<bar>context_round x - x\<bar> = \<bar>of_int (round_half_even (x / u)) - x / u\<bar> * u"
    using u by (simp add: abs_mult)
  also have "\<dots> \<le> 1 / 2 * u"
    using u round_half_even_bounds[of "x / u"] by (intro mult_right_mono) simp_all
  finally show ?thesis by (simp add: u_def)
qed

lemma context_round_close:
  assumes "\<bar>x\<bar> < 10 ^ 26"
  shows "\<bar>context_round x - x\<bar> \<le> 1 / 200"
proof (cases "x = 0")
  case True
  then show ?thesis by (simp add: context_round_def)
next
  case False
  from adjusted_bounds(1)[OF False] assms have "(10::rat) powi adjusted x < 10 powi 26"
    by simp
  then have "adjusted x < 26" by (rule powi_less_imp_less)
  then have "adjusted x - 27 \<le> - 2" by simp
  then have "(10::rat) powi (adjusted x - 27) \<le> 10 powi (- 2)"
    by (intro power_int_increasing) simp_all
  also have "\<dots> = 1 / 100" by (simp add: power_int_minus_divide)
  finally have "(10::rat) powi (adjusted x - 27) / 2 \<le> 1 / 200" by simp
  with context_round_error[OF False] show ?thesis by simp
qed

section \<open>Whole cents\<close>

lemma whole_cents_iff: "whole_cents x \<longleftrightarrow> (\<exists>k::int. x = of_int k / 100)"
proof
  assume "whole_cents x"
  then have "x * 100 = of_int \<lfloor>x * 100\<rfloor>" unfolding whole_cents_def by (rule sym)
  then have "x = of_int \<lfloor>x * 100\<rfloor> / 100" by simp
  then show "\<exists>k::int. x = of_int k / 100" ..
next
  assume "\<exists>k::int. x = of_int k / 100"
  then obtain k :: int where "x = of_int k / 100" ..
  then show "whole_cents x" by (simp add: whole_cents_def)
qed

lemma whole_cents_zero: "whole_cents 0"
  by (simp add: whole_cents_def)

lemma whole_cents_add: "whole_cents x \<Longrightarrow> whole_cents y \<Longrightarrow> whole_cents (x + y)"
proof -
  assume "whole_cents x" "whole_cents y"
  then obtain k l :: int where "x = of_int k / 100" "y = of_int l / 100"
    unfolding whole_cents_iff by blast
  then have "x + y = of_int (k + l) / 100" by (simp add: add_divide_distrib)
  then show ?thesis unfolding whole_cents_iff ..
qed

lemma whole_cents_diff: "whole_cents x \<Longrightarrow> whole_cents y \<Longrightarrow> whole_cents (x - y)"
proof -
  assume "whole_cents x" "whole_cents y"
  then obtain k l :: int where "x = of_int k / 100" "y = of_int l / 100"
    unfolding whole_cents_iff by blast
  then have "x - y = of_int (k - l) / 100" by (simp add: diff_divide_distrib)
  then show ?thesis unfolding whole_cents_iff ..
qed

lemma whole_cents_min: "whole_cents x \<Longrightarrow> whole_cents y \<Longrightarrow> whole_cents (min x y)"
  by (simp add: min_def)

lemma whole_cents_abs: "whole_cents x \<Longrightarrow> whole_cents \<bar>x\<bar>"
proof -
  assume "whole_cents x"
  then obtain k :: int where "x = of_int k / 100" unfolding whole_cents_iff by blast
  then have "\<bar>x\<bar> = of_int \<bar>k\<bar> / 100" by simp
  then show ?thesis unfolding whole_cents_iff ..
qed

lemma whole_cents_minus: "whole_cents x \<Longrightarrow> whole_cents (- x)"
proof -
  assume "whole_cents x"
  then obtain k :: int where "x = of_int k / 100" unfolding whole_cents_iff by blast
  then have "- x = of_int (- k) / 100" by simp
  then show ?thesis unfolding whole_cents_iff ..
qed

lemma whole_cents_small:
  assumes "whole_cents x" "0 \<le> x" "x < 1 / 100"
  shows "x = 0"
proof -
  from assms(1) obtain k :: int where k: "x = of_int k / 100" unfolding whole_cents_iff by blast
  with assms(2,3) have "0 \<le> (of_int k :: rat)" "(of_int k :: rat) < 1" by simp_all
  then have "0 \<le> k" "k < 1" by simp_all
  then have "k = 0" by simp
  with k show ?thesis by simp
qed

text \<open>A whole number of cents below \<open>10\<^sup>2\<^sup>6\<close> has at most 28 digits.\<close>

lemma context_round_cents:
  assumes "whole_cents x" "\<bar>x\<bar> < 10 ^ 26"
  shows "context_round x = x"
proof -
  from assms(1) obtain k :: int where k: "x = of_int k / 100" unfolding whole_cents_iff by blast
  have "x * 10 powi 2 = of_int k" by (simp add: k)
  moreover have "\<bar>k\<bar> < 10 ^ 28"
  proof -
    have "(of_int \<bar>k\<bar> :: rat) = \<bar>x\<bar> * 100" by (simp add: k)
    also have "\<dots> < 10 ^ 26 * 100" using assms(2) by simp
    also have "\<dots> = of_int (10 ^ 28)" by simp
    finally show ?thesis by (simp only: of_int_less_iff)
  qed
  ultimately show ?thesis by (rule context_round_exact)
qed

lemma dec_add_cents:
  "whole_cents x \<Longrightarrow> whole_cents y \<Longrightarrow> \<bar>x + y\<bar> < 10 ^ 26 \<Longrightarrow> dec_add x y = x + y"
  by (simp add: dec_add_def context_round_cents whole_cents_add)

lemma dec_sub_cents:
  "whole_cents x \<Longrightarrow> whole_cents y \<Longrightarrow> \<bar>x - y\<bar> < 10 ^ 26 \<Longrightarrow> dec_sub x y = x - y"
  by (simp add: dec_sub_def context_round_cents whole_cents_diff)

lemma dec_abs_cents:
  "whole_cents x \<Longrightarrow> \<bar>x\<bar> < 10 ^ 26 \<Longrightarrow> dec_abs x = \<bar>x\<bar>"
  by (simp add: dec_abs_def context_round_cents whole_cents_abs)

lemma dec_sub_self: "dec_sub x x = 0"
  by (simp add: dec_sub_def context_round_def)

lemma foldl_dec_add_exact:
  "whole_cents a \<Longrightarrow> \<forall>x\<in>set xs. whole_cents x \<Longrightarrow> \<bar>a\<bar> + sum_list (map abs xs) < 10 ^ 26
   \<Longrightarrow> foldl dec_add a xs = a + sum_list xs"
proof (induction xs arbitrary: a)
  case Nil
  then show ?case by simp
next
  case (Cons x xs)
  have "\<bar>a + x\<bar> \<le> \<bar>a\<bar> + \<bar>x\<bar>" by (rule abs_triangle_ineq)
  moreover have "\<bar>a\<bar> + (\<bar>x\<bar> + sum_list (map abs xs)) < 10 ^ 26"
    using Cons.prems(3) by simp
  ultimately have b: "\<bar>a + x\<bar> + sum_list (map abs xs) < 10 ^ 26"
    by linarith
  have "0 \<le> sum_list (map abs xs)" by (rule sum_list_nonneg) auto
  with b have "\<bar>a + x\<bar> < 10 ^ 26" by linarith
  then have e: "dec_add a x = a + x"
    using Cons.prems(1,2) by (simp add: dec_add_cents)
  have "whole_cents (a + x)" using Cons.prems(1,2) by (simp add: whole_cents_add)
  from Cons.IH[OF this _ b] Cons.prems(2) show ?case by (simp add: e add.assoc)
qed

lemma sum_list_abs_ge: "\<bar>sum_list xs\<bar> \<le> sum_list (map abs (xs :: rat list))"
proof (induction xs)
  case Nil
  show ?case by simp
next
  case (Cons x xs)
  have "\<bar>x + sum_list xs\<bar> \<le> \<bar>x\<bar> + \<bar>sum_list xs\<bar>" by (rule abs_triangle_ineq)
  with Cons.IH show ?case by simp
qed

lemma py_sum_exact: "exact_range xs \<Longrightarrow> py_sum xs = sum_list xs"
  unfolding py_sum_def exact_range_def
  using foldl_dec_add_exact[of 0 xs] by (simp add: whole_cents_zero)

lemma whole_cents_sum_list: "\<forall>x\<in>set xs. whole_cents x \<Longrightarrow> whole_cents (sum_list xs)"
  by (induction xs) (simp_all add: whole_cents_zero whole_cents_add)

section \<open>Properties of the equal split\<close>

text \<open>The adjustment loop adds the adjustment to the entries from \<open>i\<close> up to \<open>i + k\<close>, as
  long as each of these additions is exact.\<close>

lemma adjust_from_exact:
  "i + k \<le> length xs \<Longrightarrow> \<forall>j. i \<le> j \<and> j < i + k \<longrightarrow> dec_add (xs ! j) adj = xs ! j + adj \<Longrightarrow>
   adjust_from adj i k xs
     = Inr (take i xs @ map (\<lambda>x. x + adj) (take k (drop i xs)) @ drop (i + k) xs)"
proof (induction k arbitrary: i xs)
  case 0
  then show ?case by simp
next
  case (Suc k)
  have i: "i < length xs" using Suc.prems(1) by simp
  let ?xs' = "xs[i := xs ! i + adj]"
  have a: "add_at adj i xs = Inr ?xs'"
    using i Suc.prems(2) by (simp add: add_at_def)
  have l: "Suc i + k \<le> length ?xs'" using Suc.prems(1) by simp
  have e: "\<forall>j. Suc i \<le> j \<and> j < Suc i + k \<longrightarrow> dec_add (?xs' ! j) adj = ?xs' ! j + adj"
    using Suc.prems(2) by simp
  have t: "take (Suc i) ?xs' = take i xs @ [xs ! i + adj]"
    using i by (simp add: take_Suc_conv_app_nth)
  have d: "drop i xs = xs ! i # drop (Suc i) xs"
    using i by (simp add: Cons_nth_drop_Suc)
  have "adjust_from adj i (Suc k) xs = adjust_from adj (Suc i) k ?xs'"
    using a by simp
  also have "\<dots> = Inr (take (Suc i) ?xs' @ map (\<lambda>x. x + adj) (take k (drop (Suc i) ?xs'))
      @ drop (Suc i + k) ?xs')"
    by (rule Suc.IH[OF l e])
  also have "\<dots> = Inr (take i xs @ map (\<lambda>x. x + adj) (take (Suc k) (drop i xs))
      @ drop (i + Suc k) xs)"
    unfolding t d by simp
  finally show ?case .
qed

text \<open>
  For a whole-cent amount below \<open>10\<^sup>2\<^sup>5\<close> the rounded base share is at most one cent from the
  exact quotient, so the adjustment loop stays inside the list; the base share, the total and
  the adjusted shares are whole cents of at most 28 digits, so nothing else is rounded.
\<close>

lemma split_equal_sums:
  assumes pos: "0 < amount" and small: "amount < 10 ^ 25" and cents: "whole_cents amount"
    and n: "1 \<le> n" "n \<le> 100"
  shows "\<exists>ys. split_equal amount n = Inr ys \<and> int (length ys) = n \<and>
    sum_list ys = amount \<and> py_sum ys = amount"
proof -
  define k where "k = \<lfloor>amount * 100\<rfloor>"
  have k: "amount * 100 = of_int k"
    unfolding k_def using cents[unfolded whole_cents_def] by (rule sym)
  have kpos: "0 < k"
  proof -
    have "(0::rat) < of_int k" using pos by (simp add: k[symmetric])
    then show ?thesis by simp
  qed
  have kup: "k < 10 ^ 27"
  proof -
    have "(of_int k :: rat) < 10 ^ 25 * 100" using small by (simp add: k[symmetric])
    also have "\<dots> = of_int (10 ^ 27)" by simp
    finally show ?thesis by (simp only: of_int_less_iff)
  qed
  have npos: "(0::rat) < of_int n" and n1: "(1::rat) \<le> of_int n" using n by simp_all
  define q where "q = amount / of_int n"
  have q100: "q * 100 = of_int k / of_int n"
    using k by (simp add: q_def field_simps)
  have qle: "0 < q" "q \<le> amount"
  proof -
    show "0 < q" using pos npos by (simp add: q_def)
    have "amount / of_int n \<le> amount / 1" using pos n1 by (intro divide_left_mono) simp_all
    then show "q \<le> amount" by (simp add: q_def)
  qed
  then have "\<bar>q\<bar> < 10 ^ 26" using small by simp
  then have cl: "\<bar>context_round q - q\<bar> \<le> 1 / 200" by (rule context_round_close)
  define y where "y = dec_div amount (of_int n)"
  have y: "y = context_round q" by (simp add: y_def dec_div_def q_def)
  define b where "b = round_half_even (y * 100)"
  have "\<bar>of_int b - y * 100\<bar> \<le> (1 / 2 :: rat)"
    unfolding b_def by (rule round_half_even_bounds)
  moreover have "\<bar>y * 100 - q * 100\<bar> \<le> (1 / 2 :: rat)"
  proof -
    have "y * 100 - q * 100 = (context_round q - q) * 100"
      by (simp add: y algebra_simps)
    then have "\<bar>y * 100 - q * 100\<bar> = \<bar>context_round q - q\<bar> * 100"
      by (simp only: abs_mult abs_numeral)
    also have "\<dots> \<le> 1 / 200 * 100" using cl by (intro mult_right_mono) simp_all
    finally show ?thesis by simp
  qed
  ultimately have near: "\<bar>of_int b - of_int k / of_int n\<bar> \<le> (1 :: rat)"
    unfolding q100 by linarith
  have bnd: "\<bar>of_int (b * n - k)\<bar> \<le> (of_int n :: rat)"
  proof -
    have "\<bar>of_int b - of_int k / of_int n\<bar> * of_int n \<le> (1 :: rat) * of_int n"
      using near npos by (intro mult_right_mono) simp_all
    then have "\<bar>(of_int b - of_int k / of_int n) * of_int n\<bar> \<le> (of_int n :: rat)"
      using npos by (simp add: abs_mult)
    moreover have "(of_int b - of_int k / of_int n) * of_int n = (of_int (b * n - k) :: rat)"
      using npos by (simp add: left_diff_distrib)
    ultimately show ?thesis by (simp only:)
  qed
  define d where "d = k - n * b"
  have dn: "\<bar>d\<bar> \<le> n"
  proof -
    have "(of_int \<bar>d\<bar> :: rat) \<le> of_int n"
      using bnd by (simp add: d_def abs_minus_commute mult.commute)
    then show ?thesis by (simp only: of_int_le_iff)
  qed
  have kn: "of_int k / of_int n \<le> (of_int k :: rat)"
  proof -
    have "(of_int k :: rat) / of_int n \<le> of_int k / 1"
      using kpos n1 by (intro divide_left_mono) simp_all
    then show ?thesis by simp
  qed
  have bup: "b \<le> k + 1"
  proof -
    have "(of_int b :: rat) \<le> of_int k / of_int n + 1" using near by linarith
    also have "\<dots> \<le> of_int k + 1" using kn by simp
    finally have "(of_int b :: rat) \<le> of_int (k + 1)" by simp
    then show ?thesis by (simp only: of_int_le_iff)
  qed
  have blo: "0 \<le> b"
  proof -
    have "0 < (of_int k :: rat) / of_int n" using kpos npos by simp
    with near have "(- 1 :: rat) < of_int b" by linarith
    then have "(of_int (- 1) :: rat) < of_int b" by simp
    then have "- 1 < b" by (simp only: of_int_less_iff)
    then show ?thesis by simp
  qed
  have babs: "\<bar>b\<bar> < 10 ^ 28" using bup blo kup by simp
  define base where "base = (of_int b / 100 :: rat)"
  have qz: "quantize (dec_div amount (of_int n)) = Inr base"
    using babs by (simp add: quantize_def y_def[symmetric] b_def[symmetric] base_def Let_def)
  have wbase: "whole_cents base" unfolding whole_cents_iff base_def by blast
  have base0: "0 \<le> base" using blo by (simp add: base_def)
  define splits where "splits = replicate (nat n) base"
  have nb: "n * b \<le> k + n" using dn by (simp add: d_def abs_le_iff)
  have tot: "sum_list splits = of_int (n * b) / 100"
    using n by (simp add: splits_def sum_list_replicate base_def)
  have totup: "sum_list splits < 10 ^ 26"
  proof -
    have "n * b < 10 ^ 28" using nb kup n by simp
    then have "(of_int (n * b) :: rat) < of_int (10 ^ 28)" by (simp only: of_int_less_iff)
    then show ?thesis by (simp add: tot)
  qed
  have er: "exact_range splits"
  proof -
    have "\<bar>base\<bar> = base" using base0 by simp
    then have "map abs splits = splits" by (simp add: splits_def)
    then have "sum_list (map abs splits) < 10 ^ 26" using totup by simp
    moreover have "\<forall>x\<in>set splits. whole_cents x" using wbase by (simp add: splits_def)
    ultimately show ?thesis unfolding exact_range_def by blast
  qed
  have total: "py_sum splits = of_int (n * b) / 100" using er tot by (simp add: py_sum_exact)
  have diffx: "amount - of_int (n * b) / 100 = of_int d / 100"
    using k by (simp add: d_def field_simps)
  have dsmall: "\<bar>of_int d / 100 :: rat\<bar> < 10 ^ 26"
  proof -
    have "\<bar>d\<bar> \<le> 100" using dn n by simp
    then have "(of_int \<bar>d\<bar> :: rat) \<le> of_int 100" by (simp only: of_int_le_iff)
    then show ?thesis by simp
  qed
  have wtot: "whole_cents (of_int (n * b) / 100)" unfolding whole_cents_iff by blast
  have "\<bar>amount - of_int (n * b) / 100\<bar> < 10 ^ 26"
    unfolding diffx by (rule dsmall)
  with cents wtot have "dec_sub amount (of_int (n * b) / 100) = amount - of_int (n * b) / 100"
    by (rule dec_sub_cents)
  then have diff: "dec_sub amount (py_sum splits) = of_int d / 100"
    unfolding total diffx .
  have d28: "\<bar>d\<bar> < 10 ^ 28" using dn n by simp
  have mul: "dec_mul (of_int d / 100) 100 = of_int d"
  proof -
    have "(of_int d :: rat) * 10 powi 0 = of_int d" by simp
    from context_round_exact[OF this d28] show ?thesis by (simp add: dec_mul_def)
  qed
  have pyint: "py_int (of_int d) = d" by (simp add: py_int_def)
  have c1: "\<not> n \<le> 0" and c2: "\<not> amount \<le> 0" using n pos by simp_all
  have se: "split_equal amount n =
      (if d \<noteq> 0 then
         adjust_from (if 0 < d then 1 / 100 else - (1 / 100)) 0 (nat \<bar>d\<bar>) splits
       else Inr splits)"
    using c1 c2
    by (simp add: split_equal_def qz Let_def splits_def[symmetric] diff mul pyint)
  have len: "int (length splits) = n" using n by (simp add: splits_def)
  show ?thesis
  proof (cases "d = 0")
    case True
    then have "split_equal amount n = Inr splits" using se by simp
    moreover have "sum_list splits = amount" using diffx True tot by simp
    moreover have "py_sum splits = amount" using total diffx True by simp
    ultimately show ?thesis using len by blast
  next
    case False
    define adj where "adj = ((if 0 < d then 1 / 100 else - (1 / 100)) :: rat)"
    have wadj: "whole_cents adj" unfolding whole_cents_iff adj_def
      by (cases "0 < d") (auto intro: exI[of _ 1] exI[of _ "- 1"])
    have bpos: "0 < d \<or> 1 \<le> b"
    proof (rule ccontr)
      assume "\<not> (0 < d \<or> 1 \<le> b)"
      then have "d \<le> 0" "b = 0" using blo by simp_all
      then show False using kpos by (simp add: d_def)
    qed
    have adj0: "0 \<le> base + adj"
    proof (cases "0 < d")
      case True
      then show ?thesis using base0 by (simp add: adj_def)
    next
      case False
      with bpos have "1 \<le> b" by simp
      then have "(of_int 1 :: rat) \<le> of_int b" by (simp only: of_int_le_iff)
      then show ?thesis using False by (simp add: adj_def base_def)
    qed
    have adjup: "base + adj < 10 ^ 26"
    proof -
      have "b + 1 < 10 ^ 28" using bup kup by simp
      then have "(of_int (b + 1) :: rat) < of_int (10 ^ 28)" by (simp only: of_int_less_iff)
      then have "base + 1 / 100 < 10 ^ 26" by (simp add: base_def)
      moreover have "adj \<le> 1 / 100" by (simp add: adj_def)
      ultimately show ?thesis by linarith
    qed
    have ex: "dec_add base adj = base + adj"
      using wbase wadj adj0 adjup by (intro dec_add_cents) simp_all
    define m where "m = nat \<bar>d\<bar>"
    have m: "0 + m \<le> length splits" using dn n by (simp add: m_def splits_def)
    have "\<forall>j. 0 \<le> j \<and> j < 0 + m \<longrightarrow> dec_add (splits ! j) adj = splits ! j + adj"
      using m ex by (simp add: splits_def)
    from adjust_from_exact[OF m this]
    have res: "adjust_from adj 0 m splits
        = Inr (replicate m (base + adj) @ replicate (nat n - m) base)"
      using m by (simp add: splits_def)
    define ys where "ys = replicate m (base + adj) @ replicate (nat n - m) base"
    have r: "split_equal amount n = Inr ys"
      using False res se by (simp add: adj_def m_def ys_def)
    have l: "int (length ys) = n" using m n by (simp add: ys_def splits_def)
    have "of_nat m * adj = (of_int d / 100 :: rat)"
      by (simp add: m_def adj_def abs_if)
    moreover have "sum_list ys = of_nat m * (base + adj) + of_nat (nat n - m) * base"
      by (simp add: ys_def sum_list_replicate)
    moreover have "(of_nat m :: rat) + of_nat (nat n - m) = of_int n"
    proof -
      have "m + (nat n - m) = nat n" using m by (simp add: splits_def)
      then have "(of_nat (m + (nat n - m)) :: rat) = of_nat (nat n)" by simp
      then show ?thesis using n by simp
    qed
    ultimately have "sum_list ys = of_int n * base + of_int d / 100"
      by (simp add: algebra_simps)
    then have s: "sum_list ys = amount"
      using diffx by (simp add: base_def)
    have "\<forall>y\<in>set ys. whole_cents y \<and> 0 \<le> y"
      using wbase wadj base0 adj0 by (auto simp: ys_def whole_cents_add)
    then have "exact_range ys"
    proof -
      assume a: "\<forall>y\<in>set ys. whole_cents y \<and> 0 \<le> y"
      then have "map abs ys = ys" by (simp add: map_idI)
      then have "sum_list (map abs ys) < 10 ^ 26" using s small by simp
      with a show ?thesis unfolding exact_range_def by blast
    qed
    then have "py_sum ys = amount" using s by (simp add: py_sum_exact)
    with r l s show ?thesis by blast
  qed
qed

text \<open>
  Claim C1, as amended. For every positive total amount with two decimal digits below
  \<open>10\<^sup>2\<^sup>5\<close> and every participant count \<open>n\<close> with \<open>1 \<le> n \<le> 100\<close>,
  \<open>split_equal\<close> returns a list of \<open>n\<close> amounts whose sum is exactly the amount, as an
  exact sum and as \<^verbatim>\<open>sum()\<close> computes it.
\<close>

theorem split_equal_exact:
  "0 < amount \<Longrightarrow> amount < 10 ^ 25 \<Longrightarrow> whole_cents amount \<Longrightarrow> 1 \<le> n \<Longrightarrow> n \<le> 100 \<Longrightarrow>
   \<exists>ys. split_equal amount n = Inr ys \<and> int (length ys) = n \<and>
        sum_list ys = amount \<and> py_sum ys = amount"
  by (rule split_equal_sums)

theorem split_equal_exact_witness:
  "(0::rat) < 1234.56 \<and> (1234.56::rat) < 10 ^ 25 \<and> whole_cents 1234.56 \<and>
   (1::int) \<le> 7 \<and> (7::int) \<le> 100 \<and>
   (\<exists>ys. split_equal 1234.56 7 = Inr ys \<and> int (length ys) = 7 \<and>
         sum_list ys = 1234.56 \<and> py_sum ys = 1234.56)"
  using split_equal_exact [of "1234.56" 7] by (simp add: whole_cents_def)

text \<open>Without the bound the claim fails: for the amount \<open>10\<^sup>2\<^sup>6\<close> the share needs 29
  digits at two decimals, and \<^verbatim>\<open>quantize\<close> raises \<^verbatim>\<open>InvalidOperation\<close>.\<close>

theorem split_equal_exact_counterexample:
  "(0::rat) < 10 ^ 26 \<and> whole_cents (10 ^ 26) \<and> (1::int) \<le> 1 \<and> (1::int) \<le> 100 \<and>
   split_equal (10 ^ 26) 1 = Inl InvalidOperation"
  by code_simp

text \<open>
  Claim C7. \<open>split_equal(10.00, 3)\<close> returns exactly \<open>[3.34, 3.33, 3.33]\<close>: the base share
  is 10.00 / 3 rounded half-to-even to two decimals, 3.33, and the first participant absorbs
  the remaining cent.
\<close>

theorem split_equal_10_3:
  "quantize (dec_div 10 3) = Inr 3.33 \<and> split_equal 10 3 = Inr [3.34, 3.33, 3.33]"
  by code_simp

section \<open>Properties of the custom split\<close>

lemma check_custom_amounts_iff:
  "check_custom_amounts xs =
     (if \<exists>a\<in>set xs. a < 0 then Some (ValueError Custom_amounts_cannot_be_negative) else None)"
  by (induction xs) auto

lemma exact_range_Cons:
  "exact_range (x # xs) \<Longrightarrow>
   whole_cents x \<and> exact_range xs \<and> \<bar>x\<bar> + sum_list (map abs xs) < 10 ^ 26"
proof -
  assume a: "exact_range (x # xs)"
  have "0 \<le> \<bar>x\<bar>" by simp
  with a show ?thesis unfolding exact_range_def by auto
qed

lemma exact_range_diff:
  assumes "exact_range (x # xs)"
  shows "dec_sub x (sum_list xs) = x - sum_list xs"
proof -
  from exact_range_Cons[OF assms] have x: "whole_cents x"
    and xs: "\<forall>y\<in>set xs. whole_cents y" and b: "\<bar>x\<bar> + sum_list (map abs xs) < 10 ^ 26"
    by (simp_all add: exact_range_def)
  have "\<bar>x - sum_list xs\<bar> \<le> \<bar>x\<bar> + \<bar>sum_list xs\<bar>" by (rule abs_triangle_ineq4)
  also have "\<dots> \<le> \<bar>x\<bar> + sum_list (map abs xs)" using sum_list_abs_ge[of xs] by simp
  finally have "\<bar>x - sum_list xs\<bar> < 10 ^ 26" using b by simp
  with x whole_cents_sum_list[OF xs] show ?thesis by (rule dec_sub_cents)
qed

lemma split_custom_in_range:
  assumes "exact_range (amount # custom_amounts)"
  shows "split_custom amount custom_amounts =
     (if sum_list custom_amounts \<noteq> amount then
        Inl (ValueError (Custom_amounts_do_not_sum (sum_list custom_amounts) amount
                           (amount - sum_list custom_amounts)))
      else if \<exists>a\<in>set custom_amounts. a < 0 then
        Inl (ValueError Custom_amounts_cannot_be_negative)
      else Inr custom_amounts)"
proof -
  have "py_sum custom_amounts = sum_list custom_amounts"
    using exact_range_Cons[OF assms] by (simp add: py_sum_exact)
  moreover have "dec_sub amount (sum_list custom_amounts) = amount - sum_list custom_amounts"
    using assms by (rule exact_range_diff)
  ultimately show ?thesis
    by (simp add: split_custom_def check_custom_amounts_iff Let_def)
qed

text \<open>
  Claim C6, as amended. For an amount and supplied amounts with two decimal digits whose
  magnitudes total less than \<open>10\<^sup>2\<^sup>6\<close>, \<open>split_custom\<close> fails with the sum-mismatch
  error (the \<^verbatim>\<open>ValueError\<close> of lines 75-78, carrying the actual sum and the signed
  difference) exactly when the supplied amounts do not sum exactly to the total; it fails with
  the negative-amount error (the \<^verbatim>\<open>ValueError\<close> of line 82) when the sum is exact but
  some supplied amount is negative; otherwise it returns the supplied amounts unchanged. In
  particular \<open>split_custom(100.00, [50.00, 30.00, 15.00])\<close> fails reporting the sum 95.00
  and the difference 5.00.
\<close>

theorem split_custom_cases:
  "(exact_range (amount # custom_amounts) \<longrightarrow>
      split_custom amount custom_amounts =
        (if sum_list custom_amounts \<noteq> amount then
           Inl (ValueError (Custom_amounts_do_not_sum (sum_list custom_amounts) amount
                              (amount - sum_list custom_amounts)))
         else if \<exists>a\<in>set custom_amounts. a < 0 then
           Inl (ValueError Custom_amounts_cannot_be_negative)
         else Inr custom_amounts))
   \<and> split_custom 100 [50, 30, 15] = Inl (ValueError (Custom_amounts_do_not_sum 95 100 5))"
proof
  show "exact_range (amount # custom_amounts) \<longrightarrow>
      split_custom amount custom_amounts =
        (if sum_list custom_amounts \<noteq> amount then
           Inl (ValueError (Custom_amounts_do_not_sum (sum_list custom_amounts) amount
                              (amount - sum_list custom_amounts)))
         else if \<exists>a\<in>set custom_amounts. a < 0 then
           Inl (ValueError Custom_amounts_cannot_be_negative)
         else Inr custom_amounts)"
    using split_custom_in_range by blast
  show "split_custom 100 [50, 30, 15] = Inl (ValueError (Custom_amounts_do_not_sum 95 100 5))"
    by code_simp
qed

theorem split_custom_cases_witness:
  "exact_range [100, 120, - 20] \<and>
   (\<exists>a\<in>set [120, - 20 :: rat]. a < 0) \<and> sum_list [120, - 20 :: rat] = 100 \<and>
   split_custom 100 [120, - 20] = Inl (ValueError Custom_amounts_cannot_be_negative) \<and>
   exact_range [100, 50, 30, 20] \<and>
   split_custom 100 [50, 30, 20] = Inr [50, 30, 20]"
proof -
  have e1: "exact_range [100, 120, - 20]" by code_simp
  have e2: "exact_range [100, 50, 30, 20]" by code_simp
  have n: "\<exists>a\<in>set [120, - 20 :: rat]. a < 0" by simp
  have s: "sum_list [120, - 20 :: rat] = 100" by simp
  from split_custom_cases [of 100 "[120, - 20]", THEN conjunct1, THEN mp, OF e1]
  have r1: "split_custom 100 [120, - 20] = Inl (ValueError Custom_amounts_cannot_be_negative)"
    by simp
  from split_custom_cases [of 100 "[50, 30, 20]", THEN conjunct1, THEN mp, OF e2]
  have r2: "split_custom 100 [50, 30, 20] = Inr [50, 30, 20]"
    by simp
  show ?thesis by (rule conjI [OF e1 conjI [OF n conjI [OF s conjI [OF r1 conjI [OF e2 r2]]]]])
qed

text \<open>Outside that range \<^verbatim>\<open>sum()\<close> rounds: supplied amounts that do not sum to the total
  are returned when their sum needs more than 28 digits.\<close>

theorem split_custom_cases_counterexample:
  "split_custom (10 ^ 26) [10 ^ 26 + 1 / 100] = Inr [10 ^ 26 + 1 / 100] \<and>
   sum_list [10 ^ 26 + 1 / 100] \<noteq> (10 ^ 26 :: rat) \<and>
   split_custom 1 [0.5000000000000000000000000000001, 0.5]
     = Inr [0.5000000000000000000000000000001, 0.5] \<and>
   sum_list [0.5000000000000000000000000000001, 0.5] \<noteq> (1 :: rat)"
  by code_simp

section \<open>Properties of the percentage split\<close>

lemma percentage_amounts_Inr:
  "percentage_amounts amount pcts acc = Inr ys \<Longrightarrow>
   \<exists>shares. map (percentage_share amount) pcts = map Inr shares \<and> ys = acc @ shares"
proof (induction pcts arbitrary: acc)
  case Nil
  then show ?case by simp
next
  case (Cons pct rest)
  from Cons.prems obtain share where sh: "percentage_share amount pct = Inr share"
    and r: "percentage_amounts amount rest (acc @ [share]) = Inr ys"
    by (auto split: if_splits sum.splits)
  from Cons.IH[OF r] obtain shares where
    "map (percentage_share amount) rest = map Inr shares" "ys = (acc @ [share]) @ shares"
    by blast
  then have "map (percentage_share amount) (pct # rest) = map Inr (share # shares)
      \<and> ys = acc @ (share # shares)"
    using sh by simp
  then show ?case by blast
qed

lemma foldl_max_ge: "m \<le> foldl (\<lambda>m y. if m < y then y else m) m (xs :: rat list)"
proof (induction xs arbitrary: m)
  case Nil show ?case by simp
next
  case (Cons x xs)
  show ?case using Cons.IH[of x] Cons.IH[of m] by auto
qed

lemma foldl_max_upper:
  "y \<in> set xs \<Longrightarrow> y \<le> foldl (\<lambda>m y. if m < y then y else m) m (xs :: rat list)"
proof (induction xs arbitrary: m)
  case Nil then show ?case by simp
next
  case (Cons x xs)
  show ?case
  proof (cases "y = x")
    case True
    have "y \<le> (if m < x then x else m)" using True by auto
    also have "\<dots> \<le> foldl (\<lambda>m y. if m < y then y else m) (if m < x then x else m) xs"
      by (rule foldl_max_ge)
    finally show ?thesis by simp
  next
    case False
    then have "y \<in> set xs" using Cons.prems by simp
    from Cons.IH[OF this] show ?thesis by simp
  qed
qed

lemma foldl_max_mem:
  "foldl (\<lambda>m y. if m < y then y else m) m (xs :: rat list) \<in> insert m (set xs)"
proof (induction xs arbitrary: m)
  case Nil show ?case by simp
next
  case (Cons x xs)
  show ?case using Cons.IH[of x] Cons.IH[of m] by auto
qed

lemma py_max_Inr:
  "py_max xs = Inr v \<Longrightarrow> v \<in> set xs \<and> (\<forall>y\<in>set xs. y \<le> v)"
proof (cases xs)
  case Nil
  assume "py_max xs = Inr v" then show ?thesis using Nil by simp
next
  case (Cons x xs')
  assume "py_max xs = Inr v"
  then have v: "v = foldl (\<lambda>m y. if m < y then y else m) x xs'" using Cons by simp
  have "v \<in> set xs" unfolding v Cons using foldl_max_mem[of x xs'] by simp
  moreover have "\<forall>y\<in>set xs. y \<le> v"
    unfolding v Cons using foldl_max_ge[of x xs'] foldl_max_upper[of _ xs' x] by auto
  ultimately show ?thesis by blast
qed

lemma py_index_Inr:
  "py_index v xs = Inr k \<Longrightarrow> k < length xs \<and> xs ! k = v \<and> (\<forall>l<k. xs ! l \<noteq> v)"
proof (induction xs arbitrary: k)
  case Nil then show ?case by simp
next
  case (Cons x xs)
  show ?case
  proof (cases "x = v")
    case True
    then show ?thesis using Cons.prems by simp
  next
    case False
    then obtain k' where k': "py_index v xs = Inr k'" "k = Suc k'"
      using Cons.prems by (auto split: sum.splits)
    from Cons.IH[OF k'(1)] have ih: "k' < length xs" "xs ! k' = v" "\<forall>l<k'. xs ! l \<noteq> v" by auto
    show ?thesis using ih False k'(2) by (auto simp: nth_Cons split: nat.splits)
  qed
qed

lemma add_at_Inr:
  "add_at a i xs = Inr ys \<Longrightarrow> i < length xs \<and> ys = xs[i := dec_add (xs ! i) a]"
  by (auto simp: add_at_def split: if_splits)

lemma sum_list_add_at:
  fixes xs :: "decimal list"
  shows "i < length xs \<Longrightarrow> sum_list (xs[i := xs ! i + a]) = sum_list xs + a"
  by (induction xs arbitrary: i) (auto split: nat.splits)

lemma sum_list_without_nth:
  fixes xs :: "decimal list"
  assumes "m < length xs"
  shows "\<bar>sum_list xs - xs ! m\<bar> \<le> sum_list (map abs xs)"
proof -
  have xs: "xs = take m xs @ xs ! m # drop (Suc m) xs"
    using assms by (rule id_take_nth_drop)
  have "sum_list xs = sum_list (take m xs) + xs ! m + sum_list (drop (Suc m) xs)"
    by (subst xs) simp
  then have "\<bar>sum_list xs - xs ! m\<bar> = \<bar>sum_list (take m xs) + sum_list (drop (Suc m) xs)\<bar>"
    by simp
  also have "\<dots> \<le> \<bar>sum_list (take m xs)\<bar> + \<bar>sum_list (drop (Suc m) xs)\<bar>"
    by (rule abs_triangle_ineq)
  also have "\<dots> \<le> sum_list (map abs (take m xs)) + sum_list (map abs (drop (Suc m) xs))"
    using sum_list_abs_ge[of "take m xs"] sum_list_abs_ge[of "drop (Suc m) xs"] by simp
  also have "\<dots> \<le> sum_list (map abs (take m xs)) + \<bar>xs ! m\<bar>
      + sum_list (map abs (drop (Suc m) xs))" by simp
  also have "\<dots> = sum_list (map abs xs)"
    by (subst (3) xs) simp
  finally show ?thesis .
qed

lemma split_percentage_sums:
  assumes ok: "split_percentage amount percentages = Inr ys"
  shows "\<exists>splits. map (percentage_share amount) percentages = map Inr splits \<and>
    (exact_range (amount # splits) \<longrightarrow>
       sum_list ys = amount \<and>
       (let diff = amount - sum_list splits
        in if diff = 0 then ys = splits
           else \<exists>m<length splits.
                  (\<forall>k<length splits. splits ! k \<le> splits ! m) \<and>
                  (\<forall>k<m. splits ! k < splits ! m) \<and>
                  ys = splits[m := splits ! m + diff]))"
proof -
  from ok obtain splits where
    sp: "percentage_amounts amount percentages [] = Inr splits"
    by (auto simp: split_percentage_def Let_def split: if_splits sum.splits)
  from percentage_amounts_Inr[OF sp] have
    shares: "map (percentage_share amount) percentages = map Inr splits" by simp
  let ?diff = "amount - sum_list splits"
  have rest: "sum_list ys = amount \<and>
       (let diff = amount - sum_list splits
        in if diff = 0 then ys = splits
           else \<exists>m<length splits.
                  (\<forall>k<length splits. splits ! k \<le> splits ! m) \<and>
                  (\<forall>k<m. splits ! k < splits ! m) \<and>
                  ys = splits[m := splits ! m + diff])"
    if er: "exact_range (amount # splits)"
  proof -
    from exact_range_Cons[OF er] have wa: "whole_cents amount" and ers: "exact_range splits"
      and bound: "\<bar>amount\<bar> + sum_list (map abs splits) < 10 ^ 26" by simp_all
    have ws: "\<forall>x\<in>set splits. whole_cents x" using ers by (simp add: exact_range_def)
    have total: "py_sum splits = sum_list splits" using ers by (rule py_sum_exact)
    have diff: "dec_sub amount (py_sum splits) = ?diff"
      unfolding total using er by (rule exact_range_diff)
    have wd: "whole_cents ?diff" using wa ws by (simp add: whole_cents_diff whole_cents_sum_list)
    show ?thesis
    proof (cases "?diff = 0")
      case True
      then have "ys = splits" using ok sp diff
        by (auto simp: split_percentage_def Let_def split: if_splits)
      then show ?thesis using True by (simp add: Let_def)
    next
      case False
      from ok sp diff False obtain largest m where
        mx: "py_max splits = Inr largest" and ix: "py_index largest splits = Inr m"
        and ad: "add_at ?diff m splits = Inr ys"
        by (auto simp: split_percentage_def Let_def split: if_splits sum.splits)
      from py_max_Inr[OF mx] have l: "\<forall>y\<in>set splits. y \<le> largest" by blast
      from py_index_Inr[OF ix] have m: "m < length splits" "splits ! m = largest"
        "\<forall>l<m. splits ! l \<noteq> largest" by auto
      have "splits ! m + ?diff = amount - (sum_list splits - splits ! m)" by simp
      moreover have "\<bar>amount - (sum_list splits - splits ! m)\<bar>
          \<le> \<bar>amount\<bar> + \<bar>sum_list splits - splits ! m\<bar>" by (rule abs_triangle_ineq4)
      ultimately have "\<bar>splits ! m + ?diff\<bar> < 10 ^ 26"
        using sum_list_without_nth[OF m(1)] bound by linarith
      moreover have "whole_cents (splits ! m)" using ws m(1) by simp
      ultimately have ex: "dec_add (splits ! m) ?diff = splits ! m + ?diff"
        using wd by (intro dec_add_cents) simp_all
      from add_at_Inr[OF ad] have ys: "ys = splits[m := splits ! m + ?diff]"
        by (simp add: ex)
      have le: "\<forall>k<length splits. splits ! k \<le> splits ! m"
        using l m(2) by (metis nth_mem)
      have lt: "\<forall>k<m. splits ! k < splits ! m"
      proof (intro allI impI)
        fix k assume k: "k < m"
        then have "k < length splits" using m(1) by simp
        then have "splits ! k \<le> splits ! m" using le by blast
        moreover have "splits ! k \<noteq> splits ! m" using m(3) k m(2) by simp
        ultimately show "splits ! k < splits ! m" by simp
      qed
      have "sum_list (splits[m := splits ! m + ?diff]) = sum_list splits + ?diff"
        using m(1) by (rule sum_list_add_at)
      moreover have "sum_list splits + ?diff = amount" by simp
      ultimately have "sum_list ys = amount" unfolding ys by (rule trans)
      moreover have "\<exists>m<length splits. (\<forall>k<length splits. splits ! k \<le> splits ! m) \<and>
                 (\<forall>k<m. splits ! k < splits ! m) \<and> ys = splits[m := splits ! m + ?diff]"
        using m(1) le lt ys by blast
      ultimately show ?thesis using False by (simp only: Let_def if_False)
    qed
  qed
  from shares rest show ?thesis by blast
qed

text \<open>
  Claim C5, as amended. Whenever \<open>split_percentage\<close> returns, every share
  \<open>(amount * pct / 100).quantize(0.01)\<close> was computed without error; with \<open>splits\<close> these
  rounded shares, if the amount has two decimal digits and the magnitudes of the amount and of
  the shares total less than \<open>10\<^sup>2\<^sup>6\<close>, then the returned amounts sum exactly to the
  amount; with \<open>diff = amount - sum(splits)\<close>, the result is \<open>splits\<close> itself when
  \<open>diff = 0\<close>, and otherwise \<open>splits\<close> with the whole of \<open>diff\<close> added at the one
  position \<open>m\<close> that holds the maximum and is the earliest position to do so.
\<close>

theorem split_percentage_exact:
  assumes "split_percentage amount percentages = Inr ys"
  shows "\<exists>splits. map (percentage_share amount) percentages = map Inr splits \<and>
    (exact_range (amount # splits) \<longrightarrow>
       sum_list ys = amount \<and>
       (let diff = amount - sum_list splits
        in if diff = 0 then ys = splits
           else \<exists>m<length splits.
                  (\<forall>k<length splits. splits ! k \<le> splits ! m) \<and>
                  (\<forall>k<m. splits ! k < splits ! m) \<and>
                  ys = splits[m := splits ! m + diff]))"
  using assms by (rule split_percentage_sums)

theorem split_percentage_exact_witness:
  "split_percentage 0.05 [50, 50] = Inr [0.03, 0.02] \<and>
   map (percentage_share 0.05) [50, 50] = map Inr [0.02, 0.02] \<and>
   exact_range [0.05, 0.02, 0.02] \<and> sum_list [0.03, 0.02 :: rat] = 0.05 \<and>
   split_percentage 100 [50, 30, 20] = Inr [50, 30, 20] \<and>
   split_percentage 1 [1.4999999999999999999999999999999, 98.5] = Inr [0.02, 0.98]"
proof -
  have h1: "split_percentage 0.05 [50, 50] = Inr [0.03, 0.02]" by code_simp
  have h2: "split_percentage 100 [50, 30, 20] = Inr [50, 30, 20]" by code_simp
  have h3: "split_percentage 1 [1.4999999999999999999999999999999, 98.5] = Inr [0.02, 0.98]"
    by code_simp
  have m: "map (percentage_share 0.05) [50, 50] = map Inr [0.02, 0.02]" by code_simp
  have e: "exact_range [0.05, 0.02, 0.02]" by code_simp
  from split_percentage_exact [OF h1] obtain splits where
    sp: "map (percentage_share 0.05) [50, 50] = map Inr splits"
    and r: "exact_range (0.05 # splits) \<longrightarrow> sum_list [0.03, 0.02 :: rat] = 0.05 \<and>
       (let diff = 0.05 - sum_list splits
        in if diff = 0 then [0.03, 0.02] = splits
           else \<exists>m<length splits.
                  (\<forall>k<length splits. splits ! k \<le> splits ! m) \<and>
                  (\<forall>k<m. splits ! k < splits ! m) \<and>
                  [0.03, 0.02] = splits[m := splits ! m + diff])"
    by blast
  from sp m have "map Inr splits = (map Inr [0.02, 0.02] :: (error + rat) list)" by simp
  moreover have "inj (Inr :: rat \<Rightarrow> error + rat)" by (simp add: inj_def)
  ultimately have "splits = [0.02, 0.02]" by (simp only: inj_map_eq_map)
  with r e have s: "sum_list [0.03, 0.02 :: rat] = 0.05" by blast
  show ?thesis by (rule conjI [OF h1 conjI [OF m conjI [OF e conjI [OF s conjI [OF h2 h3]]]]])
qed

text \<open>Outside that range the sum of the shares and the adjusted share are rounded, and the
  returned amounts do not sum to the amount.\<close>

theorem split_percentage_exact_counterexample:
  "split_percentage 150000000000000000000000000.03 [50, 50]
     = Inr [75000000000000000000000000.05, 75000000000000000000000000.02] \<and>
   sum_list [75000000000000000000000000.05, 75000000000000000000000000.02]
     \<noteq> (150000000000000000000000000.03 :: rat)"
  by code_simp

section \<open>The dispatch and non-positive amounts\<close>

text \<open>
  Claim C4. A split request through \<open>create_splits\<close> with a zero or negative total amount
  should fail under each of the three policies. Only \<open>split_equal\<close> checks the amount:
  the percentage policy returns shares of a negative or zero amount, and the custom policy
  accepts a zero amount split into zero shares.
\<close>

theorem create_splits_nonpositive_amount:
  "create_splits (- 10) PERCENTAGE [''a'', ''b''] None (Some [50, 50])
     = Inr [(''a'', - 5), (''b'', - 5)] \<and>
   create_splits 0 PERCENTAGE [''a'', ''b''] None (Some [50, 50])
     = Inr [(''a'', 0), (''b'', 0)] \<and>
   create_splits 0 CUSTOM [''a''] (Some [0]) None = Inr [(''a'', 0)] \<and>
   create_splits 0 EQUAL [''a''] None None = Inl (ValueError Amount_must_be_positive)"
  by code_simp

section \<open>The zero-sum invariant of the aggregated balances\<close>

lemma sum_dict_set:
  fixes d :: "decimal dict"
  shows "sum_list (map snd (dict_set d k (dict_get d k 0 + x))) = sum_list (map snd d) + x"
  by (induction d) (auto simp: dict_get_def)

lemma sum_abs_dict_set:
  fixes d :: "decimal dict"
  shows "sum_list (map (\<lambda>e. \<bar>snd e\<bar>) (dict_set d k (dict_get d k 0 + x)))
         \<le> sum_list (map (\<lambda>e. \<bar>snd e\<bar>) d) + \<bar>x\<bar>"
  by (induction d) (auto simp: dict_get_def)

lemma values_dict_set: "e \<in> set (dict_set d k v) \<Longrightarrow> snd e = v \<or> e \<in> set d"
  by (induction d) (auto split: if_splits)

lemma sum_abs_nonneg: "0 \<le> sum_list (map (\<lambda>e. \<bar>snd e\<bar>) (d :: decimal dict))"
  by (induction d) auto

lemma value_le_sum_abs:
  "(k, v) \<in> set (d :: decimal dict) \<Longrightarrow> \<bar>v\<bar> \<le> sum_list (map (\<lambda>e. \<bar>snd e\<bar>) d)"
proof (induction d)
  case Nil then show ?case by simp
next
  case (Cons a d)
  show ?case
  proof (cases "(k, v) = a")
    case True
    then show ?thesis using sum_abs_nonneg[of d] by auto
  next
    case False
    then have "(k, v) \<in> set d" using Cons.prems by simp
    from Cons.IH[OF this] show ?thesis by simp
  qed
qed

lemma dict_get_inv:
  assumes "dict_inv d B"
  shows "whole_cents (dict_get d k 0) \<and> \<bar>dict_get d k 0\<bar> \<le> B"
proof (cases "map_of d k")
  case None
  have "0 \<le> B" using assms sum_abs_nonneg[of d] by (simp add: dict_inv_def)
  then show ?thesis using None by (simp add: dict_get_def whole_cents_zero)
next
  case (Some v)
  then have m: "(k, v) \<in> set d" by (rule map_of_SomeD)
  then have "whole_cents v" using assms by (auto simp: dict_inv_def)
  moreover have "\<bar>v\<bar> \<le> B" using value_le_sum_abs[OF m] assms by (simp add: dict_inv_def)
  ultimately show ?thesis using Some by (simp add: dict_get_def)
qed

lemma post_exact:
  assumes inv: "dict_inv d B" and x: "whole_cents x" and b: "B + \<bar>x\<bar> < 10 ^ 26"
  shows "dec_add (dict_get d k 0) x = dict_get d k 0 + x"
proof -
  from dict_get_inv[OF inv, of k] have w: "whole_cents (dict_get d k 0)"
    and l: "\<bar>dict_get d k 0\<bar> \<le> B" by simp_all
  have "\<bar>dict_get d k 0 + x\<bar> \<le> \<bar>dict_get d k 0\<bar> + \<bar>x\<bar>" by (rule abs_triangle_ineq)
  with l b have "\<bar>dict_get d k 0 + x\<bar> < 10 ^ 26" by linarith
  with w x show ?thesis by (rule dec_add_cents)
qed

lemma post_inv:
  assumes inv: "dict_inv d B" and x: "whole_cents x"
  shows "dict_inv (dict_set d k (dict_get d k 0 + x)) (B + \<bar>x\<bar>)"
proof -
  from dict_get_inv[OF inv, of k] have w: "whole_cents (dict_get d k 0)" by simp
  have "\<forall>e\<in>set (dict_set d k (dict_get d k 0 + x)). whole_cents (snd e)"
  proof
    fix e assume "e \<in> set (dict_set d k (dict_get d k 0 + x))"
    then have "snd e = dict_get d k 0 + x \<or> e \<in> set d" by (rule values_dict_set)
    then show "whole_cents (snd e)" using inv w x by (auto simp: dict_inv_def whole_cents_add)
  qed
  moreover have "sum_list (map (\<lambda>e. \<bar>snd e\<bar>) (dict_set d k (dict_get d k 0 + x))) \<le> B + \<bar>x\<bar>"
    using sum_abs_dict_set[of d k x] inv by (simp add: dict_inv_def)
  ultimately show ?thesis unfolding dict_inv_def by blast
qed

lemma credit_step:
  assumes inv: "dict_inv d B" and x: "whole_cents x" and b: "B + \<bar>x\<bar> < 10 ^ 26"
  shows "dict_inv (dict_set d k (dec_add (dict_get d k 0) x)) (B + \<bar>x\<bar>) \<and>
         sum_list (map snd (dict_set d k (dec_add (dict_get d k 0) x))) = sum_list (map snd d) + x"
  unfolding post_exact[OF inv x b] using post_inv[OF inv x] sum_dict_set[of d k x] by blast

lemma debit_step:
  assumes inv: "dict_inv d B" and x: "whole_cents x" and b: "B + \<bar>x\<bar> < 10 ^ 26"
  shows "dict_inv (dict_set d k (dec_sub (dict_get d k 0) x)) (B + \<bar>x\<bar>) \<and>
         sum_list (map snd (dict_set d k (dec_sub (dict_get d k 0) x))) = sum_list (map snd d) - x"
proof -
  have s: "dec_sub (dict_get d k 0) x = dec_add (dict_get d k 0) (- x)"
    by (simp add: dec_sub_def dec_add_def)
  have x': "whole_cents (- x)" using x by (rule whole_cents_minus)
  have b': "B + \<bar>- x\<bar> < 10 ^ 26" using b by simp
  from credit_step[OF inv x' b', of k] show ?thesis unfolding s by simp
qed

lemma debit_splits_exact:
  "dict_inv d B \<Longrightarrow> \<forall>x\<in>set (map snd lines). whole_cents x \<Longrightarrow>
   B + sum_list (map abs (map snd lines)) < 10 ^ 26 \<Longrightarrow>
   dict_inv (debit_splits d lines) (B + sum_list (map abs (map snd lines))) \<and>
   sum_list (map snd (debit_splits d lines)) = sum_list (map snd d) - sum_list (map snd lines)"
proof (induction d lines arbitrary: B rule: debit_splits.induct)
  case (1 balances)
  then show ?case by simp
next
  case (2 balances user_id split_amount rest)
  let ?d = "dict_set balances user_id (dec_sub (dict_get balances user_id 0) split_amount)"
  have w: "whole_cents split_amount" using "2.prems"(2) by simp
  have nn: "0 \<le> sum_list (map abs (map snd rest))" by (rule sum_list_nonneg) auto
  have b: "B + \<bar>split_amount\<bar> < 10 ^ 26" using "2.prems"(3) nn by simp
  from debit_step[OF "2.prems"(1) w b, of user_id]
  have inv: "dict_inv ?d (B + \<bar>split_amount\<bar>)"
    and s: "sum_list (map snd ?d) = sum_list (map snd balances) - split_amount" by simp_all
  have r: "\<forall>x\<in>set (map snd rest). whole_cents x" using "2.prems"(2) by simp
  have b2: "B + \<bar>split_amount\<bar> + sum_list (map abs (map snd rest)) < 10 ^ 26"
    using "2.prems"(3) by simp
  from "2.IH"[OF inv r b2] show ?case using s by (simp add: add.assoc)
qed

lemma process_expenses_exact:
  "dict_inv d B \<Longrightarrow> \<forall>x\<in>set (concat (map expense_postings expenses)). whole_cents x \<Longrightarrow>
   B + sum_list (map abs (concat (map expense_postings expenses))) < 10 ^ 26 \<Longrightarrow>
   \<forall>e\<in>set expenses. sum_list (map snd (expense_splits e)) = expense_amount e \<Longrightarrow>
   dict_inv (process_expenses d expenses)
     (B + sum_list (map abs (concat (map expense_postings expenses)))) \<and>
   sum_list (map snd (process_expenses d expenses)) = sum_list (map snd d)"
proof (induction expenses arbitrary: d B)
  case Nil
  then show ?case by simp
next
  case (Cons e rest)
  let ?a = "expense_amount e"
  let ?ls = "map snd (expense_splits e)"
  let ?R = "sum_list (map abs (concat (map expense_postings rest)))"
  let ?d1 = "dict_set d (expense_paid_by e) (dec_add (dict_get d (expense_paid_by e) 0) ?a)"
  have nnR: "0 \<le> ?R" by (rule sum_list_nonneg) auto
  have nnL: "0 \<le> sum_list (map abs ?ls)" by (rule sum_list_nonneg) auto
  have pe: "concat (map expense_postings (e # rest))
      = (?a # ?ls) @ concat (map expense_postings rest)"
    by (simp only: list.map concat.simps expense_postings_def[of e])
  have bd: "B + sum_list (map abs (concat (map expense_postings (e # rest))))
      = B + \<bar>?a\<bar> + sum_list (map abs ?ls) + ?R"
    unfolding pe by simp
  have tot: "B + \<bar>?a\<bar> + sum_list (map abs ?ls) + ?R < 10 ^ 26"
    using Cons.prems(3) unfolding bd .
  have wa: "whole_cents ?a" using Cons.prems(2) unfolding pe by simp
  have wl: "\<forall>x\<in>set ?ls. whole_cents x" using Cons.prems(2) unfolding pe by simp
  have wr: "\<forall>x\<in>set (concat (map expense_postings rest)). whole_cents x"
    using Cons.prems(2) unfolding pe by simp
  have b1: "B + \<bar>?a\<bar> < 10 ^ 26" using tot nnR nnL by linarith
  from credit_step[OF Cons.prems(1) wa b1, of "expense_paid_by e"]
  have inv1: "dict_inv ?d1 (B + \<bar>?a\<bar>)"
    and s1: "sum_list (map snd ?d1) = sum_list (map snd d) + ?a" by simp_all
  have b2: "B + \<bar>?a\<bar> + sum_list (map abs ?ls) < 10 ^ 26" using tot nnR by linarith
  note ds = debit_splits_exact[OF inv1 wl b2]
  from ds have inv2: "dict_inv (debit_splits ?d1 (expense_splits e))
      (B + \<bar>?a\<bar> + sum_list (map abs ?ls))" by (rule conjunct1)
  from ds have s2: "sum_list (map snd (debit_splits ?d1 (expense_splits e)))
             = sum_list (map snd ?d1) - sum_list ?ls" by (rule conjunct2)
  have bal: "sum_list ?ls = ?a" using Cons.prems(4) by simp
  have rest: "\<forall>e\<in>set rest. sum_list (map snd (expense_splits e)) = expense_amount e"
    using Cons.prems(4) by simp
  have step: "process_expenses d (e # rest)
      = process_expenses (debit_splits ?d1 (expense_splits e)) rest"
    by (simp add: Let_def)
  note ih = Cons.IH[OF inv2 wr tot rest]
  from ih have i3: "dict_inv (process_expenses (debit_splits ?d1 (expense_splits e)) rest)
          (B + \<bar>?a\<bar> + sum_list (map abs ?ls) + ?R)" by (rule conjunct1)
  from ih have s3: "sum_list (map snd (process_expenses (debit_splits ?d1 (expense_splits e)) rest))
          = sum_list (map snd (debit_splits ?d1 (expense_splits e)))" by (rule conjunct2)
  have "sum_list (map snd (process_expenses (debit_splits ?d1 (expense_splits e)) rest))
      = sum_list (map snd d)" using s3 s2 s1 bal by linarith
  with i3 show ?case unfolding step bd by (rule conjI)
qed

lemma process_settlements_exact:
  "dict_inv d B \<Longrightarrow> \<forall>x\<in>set (concat (map settlement_postings settlements)). whole_cents x \<Longrightarrow>
   B + sum_list (map abs (concat (map settlement_postings settlements))) < 10 ^ 26 \<Longrightarrow>
   dict_inv (process_settlements d settlements)
     (B + sum_list (map abs (concat (map settlement_postings settlements)))) \<and>
   sum_list (map snd (process_settlements d settlements)) = sum_list (map snd d)"
proof (induction settlements arbitrary: d B)
  case Nil
  then show ?case by simp
next
  case (Cons s rest)
  let ?a = "settlement_amount s"
  let ?R = "sum_list (map abs (concat (map settlement_postings rest)))"
  let ?d1 = "dict_set d (settlement_paid_by s) (dec_sub (dict_get d (settlement_paid_by s) 0) ?a)"
  let ?d2 = "dict_set ?d1 (settlement_paid_to s) (dec_add (dict_get ?d1 (settlement_paid_to s) 0) ?a)"
  have nnR: "0 \<le> ?R" by (rule sum_list_nonneg) auto
  have pe: "concat (map settlement_postings (s # rest))
      = [?a, ?a] @ concat (map settlement_postings rest)"
    by (simp only: list.map concat.simps settlement_postings_def[of s])
  have bd: "B + sum_list (map abs (concat (map settlement_postings (s # rest))))
      = B + \<bar>?a\<bar> + \<bar>?a\<bar> + ?R"
    unfolding pe by simp
  have tot: "B + \<bar>?a\<bar> + \<bar>?a\<bar> + ?R < 10 ^ 26"
    using Cons.prems(3) unfolding bd .
  have wa: "whole_cents ?a" using Cons.prems(2) unfolding pe by simp
  have wr: "\<forall>x\<in>set (concat (map settlement_postings rest)). whole_cents x"
    using Cons.prems(2) unfolding pe by simp
  have b1: "B + \<bar>?a\<bar> < 10 ^ 26" using tot nnR by linarith
  from debit_step[OF Cons.prems(1) wa b1, of "settlement_paid_by s"]
  have inv1: "dict_inv ?d1 (B + \<bar>?a\<bar>)"
    and s1: "sum_list (map snd ?d1) = sum_list (map snd d) - ?a" by simp_all
  have b2: "B + \<bar>?a\<bar> + \<bar>?a\<bar> < 10 ^ 26" using tot nnR by linarith
  from credit_step[OF inv1 wa b2, of "settlement_paid_to s"]
  have inv2: "dict_inv ?d2 (B + \<bar>?a\<bar> + \<bar>?a\<bar>)"
    and s2: "sum_list (map snd ?d2) = sum_list (map snd ?d1) + ?a" by simp_all
  have step: "process_settlements d (s # rest) = process_settlements ?d2 rest"
    by (simp add: Let_def)
  note ih = Cons.IH[OF inv2 wr tot]
  from ih have i3: "dict_inv (process_settlements ?d2 rest) (B + \<bar>?a\<bar> + \<bar>?a\<bar> + ?R)"
    by (rule conjunct1)
  from ih have s3: "sum_list (map snd (process_settlements ?d2 rest)) = sum_list (map snd ?d2)"
    by (rule conjunct2)
  have "sum_list (map snd (process_settlements ?d2 rest)) = sum_list (map snd d)"
    using s3 s2 s1 by linarith
  with i3 show ?case unfolding step bd by (rule conjI)
qed

lemma dict_inv_exact_range:
  assumes "dict_inv d B" "B < 10 ^ 26"
  shows "exact_range (map snd d)"
proof -
  show ?thesis using assms unfolding dict_inv_def exact_range_def by (simp add: comp_def)
qed

lemma balances_zero_sum_aux:
  assumes bal: "\<forall>e\<in>set expenses. sum_list (map snd (expense_splits e)) = expense_amount e"
    and er: "exact_range (postings expenses settlements)"
  shows "sum_list (map snd (calculate_group_balances expenses settlements)) = 0 \<and>
     py_sum (map snd (calculate_group_balances expenses settlements)) = 0 \<and>
     verify_zero_sum (calculate_group_balances expenses settlements) (1 / 100)"
proof -
  let ?E = "concat (map expense_postings expenses)"
  let ?S = "concat (map settlement_postings settlements)"
  have we: "\<forall>x\<in>set ?E. whole_cents x" and ws: "\<forall>x\<in>set ?S. whole_cents x"
    and tot: "sum_list (map abs ?E) + sum_list (map abs ?S) < 10 ^ 26"
    using er unfolding exact_range_def postings_def by auto
  have nnS: "0 \<le> sum_list (map abs ?S)" by (rule sum_list_nonneg) auto
  have i0: "dict_inv [] 0" by (simp add: dict_inv_def)
  have b0: "0 + sum_list (map abs ?E) < 10 ^ 26" using tot nnS by linarith
  from process_expenses_exact[OF i0 we b0 bal]
  have inv1: "dict_inv (process_expenses [] expenses) (0 + sum_list (map abs ?E))"
    and s1: "sum_list (map snd (process_expenses [] expenses)) = 0" by simp_all
  have b1: "0 + sum_list (map abs ?E) + sum_list (map abs ?S) < 10 ^ 26" using tot by simp
  from process_settlements_exact[OF inv1 ws b1]
  have inv2: "dict_inv (calculate_group_balances expenses settlements)
                (0 + sum_list (map abs ?E) + sum_list (map abs ?S))"
    and s2: "sum_list (map snd (calculate_group_balances expenses settlements)) = 0"
    using s1 by (simp_all add: calculate_group_balances_def)
  from dict_inv_exact_range[OF inv2 b1]
  have "py_sum (map snd (calculate_group_balances expenses settlements))
        = sum_list (map snd (calculate_group_balances expenses settlements))"
    by (rule py_sum_exact)
  then have p: "py_sum (map snd (calculate_group_balances expenses settlements)) = 0"
    using s2 by simp
  have "dec_abs 0 = 0" by (simp add: dec_abs_def context_round_def)
  then have "verify_zero_sum (calculate_group_balances expenses settlements) (1 / 100)"
    unfolding verify_zero_sum_def p by simp
  with s2 p show ?thesis by blast
qed

text \<open>
  Claim C2, as amended. For every list of expense records in which each expense's split lines
  sum exactly to the expense's amount, and every list of settlement records, such that all
  amounts have two decimal digits and the magnitudes of all posted amounts (every expense
  amount, every split line, every settlement amount twice) total less than \<open>10\<^sup>2\<^sup>6\<close>, the
  values of the balance map returned by \<open>calculate_group_balances\<close> sum exactly to zero,
  also as \<^verbatim>\<open>sum()\<close> computes it, so \<open>verify_zero_sum\<close> with the default tolerance 0.01
  returns true on it.
\<close>

theorem balances_zero_sum:
  "\<forall>e\<in>set expenses. sum_list (map snd (expense_splits e)) = expense_amount e \<Longrightarrow>
   exact_range (postings expenses settlements) \<Longrightarrow>
   sum_list (map snd (calculate_group_balances expenses settlements)) = 0 \<and>
   py_sum (map snd (calculate_group_balances expenses settlements)) = 0 \<and>
   verify_zero_sum (calculate_group_balances expenses settlements) (1 / 100)"
  by (rule balances_zero_sum_aux)

theorem balances_zero_sum_witness:
  "sum_list (map snd [(''alice'', 40 :: rat), (''bob'', 40), (''charlie'', 40)]) = 120 \<and>
   sum_list (map snd [(''bob'', 30 :: rat), (''charlie'', 30)]) = 60 \<and>
   exact_range (postings
      [\<lparr>expense_paid_by = ''alice'', expense_amount = 120,
        expense_splits = [(''alice'', 40), (''bob'', 40), (''charlie'', 40)]\<rparr>,
       \<lparr>expense_paid_by = ''bob'', expense_amount = 60,
        expense_splits = [(''bob'', 30), (''charlie'', 30)]\<rparr>]
      [\<lparr>settlement_paid_by = ''charlie'', settlement_paid_to = ''alice'',
        settlement_amount = 70\<rparr>]) \<and>
   calculate_group_balances
      [\<lparr>expense_paid_by = ''alice'', expense_amount = 120,
        expense_splits = [(''alice'', 40), (''bob'', 40), (''charlie'', 40)]\<rparr>,
       \<lparr>expense_paid_by = ''bob'', expense_amount = 60,
        expense_splits = [(''bob'', 30), (''charlie'', 30)]\<rparr>]
      [\<lparr>settlement_paid_by = ''charlie'', settlement_paid_to = ''alice'',
        settlement_amount = 70\<rparr>]
     = [(''alice'', 150), (''bob'', - 10), (''charlie'', - 140)] \<and>
   verify_zero_sum [(''alice'', 150), (''bob'', - 10), (''charlie'', - 140)] (1 / 100) \<and>
   \<not> verify_zero_sum [(''alice'', 50), (''bob'', - 30)] (1 / 100)"
proof -
  let ?es = "[\<lparr>expense_paid_by = ''alice'', expense_amount = 120,
        expense_splits = [(''alice'', 40), (''bob'', 40), (''charlie'', 40)]\<rparr>,
       \<lparr>expense_paid_by = ''bob'', expense_amount = 60,
        expense_splits = [(''bob'', 30), (''charlie'', 30)]\<rparr>]"
  let ?ss = "[\<lparr>settlement_paid_by = ''charlie'', settlement_paid_to = ''alice'',
        settlement_amount = 70\<rparr>]"
  have s1: "sum_list (map snd [(''alice'', 40 :: rat), (''bob'', 40), (''charlie'', 40)]) = 120"
    by simp
  have s2: "sum_list (map snd [(''bob'', 30 :: rat), (''charlie'', 30)]) = 60"
    by simp
  have h: "\<forall>e\<in>set ?es. sum_list (map snd (expense_splits e)) = expense_amount e"
    using s1 s2 by simp
  have r: "exact_range (postings ?es ?ss)" by code_simp
  have c: "calculate_group_balances ?es ?ss
      = [(''alice'', 150), (''bob'', - 10), (''charlie'', - 140)]"
    by code_simp
  have n: "\<not> verify_zero_sum [(''alice'', 50), (''bob'', - 30)] (1 / 100)"
    by code_simp
  from balances_zero_sum [OF h r]
  have "verify_zero_sum (calculate_group_balances ?es ?ss) (1 / 100)"
    by (rule conjunct2 [THEN conjunct2])
  then have v: "verify_zero_sum [(''alice'', 150), (''bob'', - 10), (''charlie'', - 140)] (1 / 100)"
    by (simp only: c)
  show ?thesis by (rule conjI [OF s1 conjI [OF s2 conjI [OF r conjI [OF c conjI [OF v n]]]]])
qed

text \<open>Outside that range a balance update is rounded: after an expense of \<open>10\<^sup>2\<^sup>9\<close>
  the debit of 1 leaves the payer's balance as it was, and the map sums to 1.\<close>

theorem balances_zero_sum_counterexample:
  "sum_list (map snd [(''c'', 10 ^ 29 :: rat)]) = 10 ^ 29 \<and>
   sum_list (map snd [(''a'', 1 :: rat)]) = 1 \<and>
   calculate_group_balances
     [\<lparr>expense_paid_by = ''a'', expense_amount = 10 ^ 29, expense_splits = [(''c'', 10 ^ 29)]\<rparr>,
      \<lparr>expense_paid_by = ''b'', expense_amount = 1, expense_splits = [(''a'', 1)]\<rparr>] []
     = [(''a'', 10 ^ 29), (''c'', - (10 ^ 29)), (''b'', 1)] \<and>
   sum_list (map snd [(''a'', 10 ^ 29 :: rat), (''c'', - (10 ^ 29)), (''b'', 1)]) = 1 \<and>
   \<not> verify_zero_sum [(''a'', 10 ^ 29), (''c'', - (10 ^ 29)), (''b'', 1)] (1 / 100)"
  by code_simp

section \<open>Termination of the two-pointer loop\<close>

lemma sweep_step_decreases:
  "sweep_cond debtors creditors st \<Longrightarrow>
   remaining debtors creditors (sweep_step debtors creditors st) < remaining debtors creditors st"
  by (cases st)
     (auto simp: sweep_cond_def sweep_step_def remaining_def advance_def Let_def min_def
           dec_sub_def context_round_def split: prod.splits if_splits)

lemma sweep_exits:
  "\<exists>k\<le>remaining debtors creditors st.
     \<not> sweep_cond debtors creditors ((sweep_step debtors creditors ^^ k) st) \<and>
     sweep debtors creditors st = snd (snd (snd (snd ((sweep_step debtors creditors ^^ k) st))))"
proof (induction debtors creditors st rule: sweep.induct)
  case (1 debtors creditors st)
  show ?case
  proof (cases "sweep_cond debtors creditors st")
    case False
    then have "sweep debtors creditors st = snd (snd (snd (snd st)))"
      by (simp add: sweep.simps)
    with False show ?thesis by (intro exI[of _ 0]) simp
  next
    case True
    let ?st' = "sweep_step debtors creditors st"
    from "1.IH"[OF True] obtain k where
      k: "k \<le> remaining debtors creditors ?st'"
         "\<not> sweep_cond debtors creditors ((sweep_step debtors creditors ^^ k) ?st')"
         "sweep debtors creditors ?st' =
            snd (snd (snd (snd ((sweep_step debtors creditors ^^ k) ?st'))))"
      by blast
    have "Suc k \<le> remaining debtors creditors st"
      using k(1) sweep_step_decreases[OF True] by simp
    moreover have "(sweep_step debtors creditors ^^ Suc k) st
        = (sweep_step debtors creditors ^^ k) ?st'"
      by (simp add: funpow_swap1)
    moreover have "sweep debtors creditors st = sweep debtors creditors ?st'"
      using True by (subst sweep.simps) simp
    ultimately show ?thesis using k(2,3) by (intro exI[of _ "Suc k"]) (simp del: funpow.simps)
  qed
qed

lemma sweep_step_pointers:
  assumes "i < length debtors" "j < length creditors"
    and "sweep_step debtors creditors (i, j, current_debt, current_credit, transactions)
          = (i', j', current_debt', current_credit', transactions')"
  shows "(i' = i + 1 \<or> j' = j + 1) \<and> i \<le> i' \<and> j \<le> j'"
  using assms
  by (auto simp: sweep_step_def advance_def Let_def min_def dec_sub_def context_round_def
      split: prod.splits if_splits)

lemma settled_side_zero:
  "dec_sub current_debt (min current_debt current_credit) = 0 \<or>
   dec_sub current_credit (min current_debt current_credit) = 0"
  by (auto simp: min_def dec_sub_self)

text \<open>
  Claim C10. \<open>simplify_debts\<close> terminates on every input: every iteration of the two-pointer
  loop advances the debtor pointer or the creditor pointer and moves neither back, because
  the settled amount is the minimum of the two remaining amounts, so one of them drops to
  zero (exactly, and also as the context's subtraction computes it), below the 0.01
  threshold; hence from any state the loop condition fails after at most
  \<open>(len(debtors) - i) + (len(creditors) - j)\<close> iterations, and the transactions of that
  state are what the loop returns.
\<close>

theorem simplify_debts_terminates:
  "(\<forall>i j current_debt current_credit transactions.
      i < length debtors \<and> j < length creditors \<longrightarrow>
      (case sweep_step debtors creditors (i, j, current_debt, current_credit, transactions) of
         (i', j', rest) \<Rightarrow> (i' = i + 1 \<or> j' = j + 1) \<and> i \<le> i' \<and> j \<le> j') \<and>
      (current_debt - min current_debt current_credit = 0 \<or>
       current_credit - min current_debt current_credit = 0) \<and>
      (dec_sub current_debt (min current_debt current_credit) = 0 \<or>
       dec_sub current_credit (min current_debt current_credit) = 0)) \<and>
   (\<exists>k\<le>remaining debtors creditors st.
      \<not> sweep_cond debtors creditors ((sweep_step debtors creditors ^^ k) st) \<and>
      sweep debtors creditors st = snd (snd (snd (snd ((sweep_step debtors creditors ^^ k) st)))))"
proof (intro conjI allI impI)
  fix i j current_debt current_credit transactions
  assume a: "i < length debtors \<and> j < length creditors"
  obtain i' j' cd' cc' ts' where
    s: "sweep_step debtors creditors (i, j, current_debt, current_credit, transactions)
          = (i', j', cd', cc', ts')"
    by (metis prod_cases5)
  from sweep_step_pointers[OF _ _ s] a
  show "case sweep_step debtors creditors (i, j, current_debt, current_credit, transactions) of
         (i', j', rest) \<Rightarrow> (i' = i + 1 \<or> j' = j + 1) \<and> i \<le> i' \<and> j \<le> j'"
    unfolding s by simp
  show "current_debt - min current_debt current_credit = 0 \<or>
       current_credit - min current_debt current_credit = 0"
    by (auto simp: min_def)
  show "dec_sub current_debt (min current_debt current_credit) = 0 \<or>
       dec_sub current_credit (min current_debt current_credit) = 0"
    by (rule settled_side_zero)
next
  show "\<exists>k\<le>remaining debtors creditors st.
      \<not> sweep_cond debtors creditors ((sweep_step debtors creditors ^^ k) st) \<and>
      sweep debtors creditors st = snd (snd (snd (snd ((sweep_step debtors creditors ^^ k) st))))"
    by (rule sweep_exits)
qed

theorem simplify_debts_terminates_witness:
  "((0::nat) < length [(''b'', 30 :: rat), (''c'', 20)] \<and> (0::nat) < length [(''a'', 50 :: rat)]) \<and>
   (case sweep_step [(''b'', 30), (''c'', 20)] [(''a'', 50)] (0, 0, 30, 50, []) of
      (i', j', rest) \<Rightarrow> (i' = 0 + 1 \<or> j' = 0 + 1) \<and> 0 \<le> i' \<and> 0 \<le> j') \<and>
   (\<exists>k\<le>remaining [(''b'', 30), (''c'', 20)] [(''a'', 50)] (0, 0, 30, 50, []).
      \<not> sweep_cond [(''b'', 30), (''c'', 20)] [(''a'', 50)]
          ((sweep_step [(''b'', 30), (''c'', 20)] [(''a'', 50)] ^^ k) (0, 0, 30, 50, [])) \<and>
      sweep [(''b'', 30), (''c'', 20)] [(''a'', 50)] (0, 0, 30, 50, []) =
        snd (snd (snd (snd ((sweep_step [(''b'', 30), (''c'', 20)] [(''a'', 50)] ^^ k)
          (0, 0, 30, 50, []))))))"
proof -
  have h: "(0::nat) < length [(''b'', 30 :: rat), (''c'', 20)] \<and> (0::nat) < length [(''a'', 50 :: rat)]"
    by simp
  note t = simplify_debts_terminates
    [of "[(''b'', 30), (''c'', 20)]" "[(''a'', 50)]" "(0, 0, 30, 50, [])"]
  from t [THEN conjunct1, rule_format, OF h, THEN conjunct1]
  have s: "case sweep_step [(''b'', 30), (''c'', 20)] [(''a'', 50)] (0, 0, 30, 50, []) of
      (i', j', rest) \<Rightarrow> (i' = 0 + 1 \<or> j' = 0 + 1) \<and> 0 \<le> i' \<and> 0 \<le> j'" .
  show ?thesis by (rule conjI [OF h conjI [OF s t [THEN conjunct2]]])
qed

section \<open>The number of instructions\<close>

lemma sweep_length:
  "length (sweep debtors creditors st) + (if sweep_cond debtors creditors st then 1 else 0)
     \<le> length (snd (snd (snd (snd st)))) + remaining debtors creditors st"
proof (induction debtors creditors st rule: sweep.induct)
  case (1 debtors creditors st)
  show ?case
  proof (cases "sweep_cond debtors creditors st")
    case False
    then show ?thesis by (simp add: sweep.simps)
  next
    case True
    let ?st' = "sweep_step debtors creditors st"
    have eq: "sweep debtors creditors st = sweep debtors creditors ?st'"
      using True by (subst sweep.simps) simp
    have len: "length (snd (snd (snd (snd ?st')))) = length (snd (snd (snd (snd st)))) + 1"
      by (cases st) (simp add: sweep_step_def Let_def split: prod.splits)
    have dec: "remaining debtors creditors ?st' < remaining debtors creditors st"
      by (rule sweep_step_decreases[OF True])
    have two: "2 \<le> remaining debtors creditors st"
      using True by (cases st) (auto simp: sweep_cond_def remaining_def)
    show ?thesis
    proof (cases "sweep_cond debtors creditors ?st'")
      case True
      with "1.IH"[OF \<open>sweep_cond debtors creditors st\<close>] len dec eq show ?thesis by simp
    next
      case False
      then have "sweep debtors creditors ?st' = snd (snd (snd (snd ?st')))"
        by (simp add: sweep.simps)
      with len eq two True show ?thesis by simp
    qed
  qed
qed

lemma length_debtors_of:
  "length (debtors_of balances) = length (filter (\<lambda>(user, balance). balance < - (1 / 100)) balances)"
  by (simp add: debtors_of_def sort_largest_first_def)

lemma length_creditors_of:
  "length (creditors_of balances) = length (filter (\<lambda>(user, balance). 1 / 100 < balance) balances)"
  by (simp add: creditors_of_def sort_largest_first_def)

lemma simplify_debts_length:
  "length (simplify_debts balances)
     \<le> length (debtors_of balances) + length (creditors_of balances) - 1"
proof -
  define ds where "ds = debtors_of balances"
  define cs where "cs = creditors_of balances"
  define st :: sweep_state where
    "st = (0, 0, if ds \<noteq> [] then snd (ds ! 0) else 0, if cs \<noteq> [] then snd (cs ! 0) else 0, [])"
  have sd: "simplify_debts balances = sweep ds cs st"
    by (simp only: simplify_debts_def Let_def ds_def cs_def st_def)
  have tr: "snd (snd (snd (snd st))) = []" by (simp add: st_def)
  have re: "remaining ds cs st = length ds + length cs" by (simp add: st_def remaining_def)
  show ?thesis
  proof (cases "sweep_cond ds cs st")
    case True
    with sweep_length[of ds cs st] tr re have "length (sweep ds cs st) + 1 \<le> length ds + length cs"
      by simp
    then show ?thesis unfolding sd ds_def cs_def by simp
  next
    case False
    then have "sweep ds cs st = []" using tr by (subst sweep.simps) simp
    then show ?thesis unfolding sd by simp
  qed
qed

lemma simplify_debts_none:
  "debtors_of balances = [] \<or> creditors_of balances = [] \<Longrightarrow> simplify_debts balances = []"
proof -
  assume a: "debtors_of balances = [] \<or> creditors_of balances = []"
  have "\<not> sweep_cond (debtors_of balances) (creditors_of balances) (0, 0, x, y, [])" for x y
    using a by (auto simp: sweep_cond_def)
  then show ?thesis
    unfolding simplify_debts_def Let_def by (subst sweep.simps) simp
qed

text \<open>
  Claim C8, as amended. For every balance map with at least one debtor (balance below -0.01)
  or creditor (balance above 0.01), the number of instructions returned by
  \<open>simplify_debts\<close> is at most the number of debtors plus the number of creditors minus
  one; with neither, the list is empty.
\<close>

theorem simplify_debts_count:
  "(0 < length (filter (\<lambda>(user, balance). balance < - (1 / 100)) balances)
      + length (filter (\<lambda>(user, balance). 1 / 100 < balance) balances) \<longrightarrow>
    int (length (simplify_debts balances))
      \<le> int (length (filter (\<lambda>(user, balance). balance < - (1 / 100)) balances))
        + int (length (filter (\<lambda>(user, balance). 1 / 100 < balance) balances)) - 1) \<and>
   (length (filter (\<lambda>(user, balance). balance < - (1 / 100)) balances)
      + length (filter (\<lambda>(user, balance). 1 / 100 < balance) balances) = 0 \<longrightarrow>
    simplify_debts balances = [])"
proof -
  define nd where "nd = length (debtors_of balances)"
  define nc where "nc = length (creditors_of balances)"
  define n where "n = length (simplify_debts balances)"
  have le: "n \<le> nd + nc - 1"
    unfolding n_def nd_def nc_def by (rule simplify_debts_length)
  have none: "nd + nc = 0 \<longrightarrow> simplify_debts balances = []"
    unfolding nd_def nc_def using simplify_debts_none[of balances] by simp
  have "0 < nd + nc \<longrightarrow> int n \<le> int nd + int nc - 1"
    using le by linarith
  with none have "(0 < nd + nc \<longrightarrow> int n \<le> int nd + int nc - 1) \<and>
      (nd + nc = 0 \<longrightarrow> simplify_debts balances = [])" by blast
  then show ?thesis
    unfolding n_def nd_def nc_def length_debtors_of length_creditors_of .
qed

theorem simplify_debts_count_witness:
  "0 < length (filter (\<lambda>(user, balance). balance < - (1 / 100))
           [(''Alice'', 50 :: rat), (''Bob'', - 30), (''Charlie'', - 20)])
     + length (filter (\<lambda>(user, balance). 1 / 100 < balance)
           [(''Alice'', 50 :: rat), (''Bob'', - 30), (''Charlie'', - 20)]) \<and>
   int (length (simplify_debts [(''Alice'', 50), (''Bob'', - 30), (''Charlie'', - 20)]))
     \<le> int (length (filter (\<lambda>(user, balance). balance < - (1 / 100))
           [(''Alice'', 50 :: rat), (''Bob'', - 30), (''Charlie'', - 20)]))
       + int (length (filter (\<lambda>(user, balance). 1 / 100 < balance)
           [(''Alice'', 50 :: rat), (''Bob'', - 30), (''Charlie'', - 20)])) - 1 \<and>
   length (filter (\<lambda>(user, balance). balance < - (1 / 100)) [(''A'', 0 :: rat)])
     + length (filter (\<lambda>(user, balance). 1 / 100 < balance) [(''A'', 0 :: rat)]) = 0 \<and>
   simplify_debts [(''A'', 0)] = []"
proof -
  have h1: "0 < length (filter (\<lambda>(user, balance). balance < - (1 / 100))
           [(''Alice'', 50 :: rat), (''Bob'', - 30), (''Charlie'', - 20)])
     + length (filter (\<lambda>(user, balance). 1 / 100 < balance)
           [(''Alice'', 50 :: rat), (''Bob'', - 30), (''Charlie'', - 20)])"
    by simp
  have h2: "length (filter (\<lambda>(user, balance). balance < - (1 / 100)) [(''A'', 0 :: rat)])
     + length (filter (\<lambda>(user, balance). 1 / 100 < balance) [(''A'', 0 :: rat)]) = 0"
    by simp
  note t1 = simplify_debts_count
    [of "[(''Alice'', 50), (''Bob'', - 30), (''Charlie'', - 20)]", THEN conjunct1, THEN mp, OF h1]
  note t2 = simplify_debts_count [of "[(''A'', 0)]", THEN conjunct2, THEN mp, OF h2]
  show ?thesis by (rule conjI [OF h1 conjI [OF t1 conjI [OF h2 t2]]])
qed

text \<open>With no debtor and no creditor the bound of the claim as stated is \<open>-1\<close>, below the
  length of the empty list.\<close>

theorem simplify_debts_count_counterexample:
  "\<not> int (length (simplify_debts []))
      \<le> int (length (filter (\<lambda>(user, balance). balance < - (1 / 100)) ([] :: decimal dict)))
        + int (length (filter (\<lambda>(user, balance). 1 / 100 < balance) ([] :: decimal dict))) - 1"
proof -
  have "simplify_debts [] = []"
    by (rule simplify_debts_none) (simp add: debtors_of_def sort_largest_first_def)
  then show ?thesis by simp
qed

section \<open>Participants within the tolerance\<close>

lemma sweep_step_transactions:
  "sweep_cond debtors creditors st \<Longrightarrow>
   \<exists>i j amount. i < length debtors \<and> j < length creditors \<and>
     snd (snd (snd (snd (sweep_step debtors creditors st))))
       = snd (snd (snd (snd st))) @ [(fst (debtors ! i), fst (creditors ! j), amount)]"
  by (cases st) (auto simp: sweep_cond_def sweep_step_def Let_def split: prod.splits)

lemma sweep_users:
  "(f, t, a) \<in> set (sweep debtors creditors st) \<Longrightarrow>
   (f, t, a) \<in> set (snd (snd (snd (snd st)))) \<or>
   (f \<in> fst ` set debtors \<and> t \<in> fst ` set creditors)"
proof (induction debtors creditors st rule: sweep.induct)
  case (1 debtors creditors st)
  show ?case
  proof (cases "sweep_cond debtors creditors st")
    case False
    then show ?thesis using "1.prems" by (simp add: sweep.simps)
  next
    case True
    let ?st' = "sweep_step debtors creditors st"
    have "sweep debtors creditors st = sweep debtors creditors ?st'"
      using True by (subst sweep.simps) simp
    with "1.prems" have "(f, t, a) \<in> set (sweep debtors creditors ?st')" by simp
    from "1.IH"[OF True this] sweep_step_transactions[OF True]
    show ?thesis by (auto simp: nth_mem)
  qed
qed

lemma simplify_debts_users:
  assumes "(f, t, a) \<in> set (simplify_debts balances)"
  shows "(\<exists>b. (f, b) \<in> set balances \<and> b < - (1 / 100)) \<and>
         (\<exists>b. (t, b) \<in> set balances \<and> 1 / 100 < b)"
proof -
  define st :: sweep_state where "st = (0, 0,
      if debtors_of balances \<noteq> [] then snd (debtors_of balances ! 0) else 0,
      if creditors_of balances \<noteq> [] then snd (creditors_of balances ! 0) else 0, [])"
  have "simplify_debts balances = sweep (debtors_of balances) (creditors_of balances) st"
    by (simp only: simplify_debts_def Let_def st_def)
  with assms have "(f, t, a) \<in> set (sweep (debtors_of balances) (creditors_of balances) st)"
    by simp
  from sweep_users[OF this]
  have "f \<in> fst ` set (debtors_of balances)" "t \<in> fst ` set (creditors_of balances)"
    by (simp_all add: st_def)
  then show ?thesis
    by (auto simp: debtors_of_def creditors_of_def sort_largest_first_def)
qed

lemma distinct_keys_unique:
  "distinct (map fst xs) \<Longrightarrow> (k, v) \<in> set xs \<Longrightarrow> (k, w) \<in> set xs \<Longrightarrow> v = w"
  by (metis eq_key_imp_eq_value)

text \<open>
  Claim C9. A participant whose balance has absolute value at most the tolerance 0.01
  (exactly 0.01 or -0.01 included) appears in no instruction emitted by \<open>simplify_debts\<close>,
  neither as payer nor as receiver (a dict holds each key once), and when no balance in the
  map exceeds the tolerance the instruction list is empty.
\<close>

theorem settled_participants_excluded:
  "(distinct (map fst balances) \<and> (user, balance) \<in> set balances \<and> \<bar>balance\<bar> \<le> 1 / 100 \<longrightarrow>
      (\<forall>(f, t, a) \<in> set (simplify_debts balances). f \<noteq> user \<and> t \<noteq> user)) \<and>
   ((\<forall>(u, b) \<in> set balances. \<bar>b\<bar> \<le> 1 / 100) \<longrightarrow> simplify_debts balances = [])"
proof (intro conjI impI)
  assume ub: "distinct (map fst balances) \<and> (user, balance) \<in> set balances \<and>
    \<bar>balance\<bar> \<le> 1 / 100"
  then have dist: "distinct (map fst balances)" by blast
  show "\<forall>(f, t, a) \<in> set (simplify_debts balances). f \<noteq> user \<and> t \<noteq> user"
  proof (clarify, rule ccontr)
    fix f t a
    assume m: "(f, t, a) \<in> set (simplify_debts balances)" and n: "\<not> (f \<noteq> user \<and> t \<noteq> user)"
    from simplify_debts_users[OF m] obtain b1 b2 where
      b: "(f, b1) \<in> set balances" "b1 < - (1 / 100)" "(t, b2) \<in> set balances" "1 / 100 < b2"
      by blast
    from n have "f = user \<or> t = user" by blast
    then show False
    proof
      assume "f = user"
      with b(1) ub dist have "b1 = balance" by (metis distinct_keys_unique)
      with b(2) ub show False by simp
    next
      assume "t = user"
      with b(3) ub dist have "b2 = balance" by (metis distinct_keys_unique)
      with b(4) ub show False by simp
    qed
  qed
next
  assume all: "\<forall>(u, b) \<in> set balances. \<bar>b\<bar> \<le> 1 / 100"
  have "filter (\<lambda>(user, balance). balance < - (1 / 100)) balances = []"
    using all by (auto simp: filter_empty_conv)
  then have "debtors_of balances = []"
    by (simp add: debtors_of_def sort_largest_first_def)
  then show "simplify_debts balances = []"
    by (simp add: simplify_debts_none)
qed

theorem settled_participants_excluded_witness:
  "distinct (map fst [(''a'', 50 :: rat), (''b'', - 49.99), (''c'', - 0.01)]) \<and>
   ((''c'', - 0.01) \<in> set [(''a'', 50 :: rat), (''b'', - 49.99), (''c'', - 0.01)] \<and>
      \<bar>- 0.01 :: rat\<bar> \<le> 1 / 100) \<and>
   simplify_debts [(''a'', 50), (''b'', - 49.99), (''c'', - 0.01)] = [(''b'', ''a'', 49.99)] \<and>
   (''b'' \<noteq> ''c'' \<and> ''a'' \<noteq> ''c'') \<and>
   (\<bar>0.01 :: rat\<bar> \<le> 1 / 100 \<and> \<bar>- 0.01 :: rat\<bar> \<le> 1 / 100) \<and>
   simplify_debts [(''a'', 0.01), (''b'', - 0.01)] = []"
proof -
  have d1: "distinct (map fst [(''a'', 50 :: rat), (''b'', - 49.99), (''c'', - 0.01)])"
    by simp
  have h1: "(''c'', - 0.01) \<in> set [(''a'', 50 :: rat), (''b'', - 49.99), (''c'', - 0.01)] \<and>
      \<bar>- 0.01 :: rat\<bar> \<le> 1 / 100"
    by simp
  have r: "simplify_debts [(''a'', 50), (''b'', - 49.99), (''c'', - 0.01)] = [(''b'', ''a'', 49.99)]"
    by code_simp
  have a2: "\<bar>0.01 :: rat\<bar> \<le> 1 / 100 \<and> \<bar>- 0.01 :: rat\<bar> \<le> 1 / 100"
    by simp
  have h2: "\<forall>(u, b) \<in> set [(''a'', 0.01 :: rat), (''b'', - 0.01)]. \<bar>b\<bar> \<le> 1 / 100"
    using a2 by simp
  note t1 = settled_participants_excluded [THEN conjunct1, THEN mp, OF conjI [OF d1 h1]]
  have m: "(''b'', ''a'', 49.99)
      \<in> set (simplify_debts [(''a'', 50), (''b'', - 49.99), (''c'', - 0.01)])"
    unfolding r by simp
  have u: "''b'' \<noteq> ''c'' \<and> ''a'' \<noteq> ''c''"
    by (rule bspec [OF t1 m, unfolded prod.case])
  note t2 = settled_participants_excluded [THEN conjunct2, THEN mp, OF h2]
  show ?thesis
    by (rule conjI [OF d1 conjI [OF h1 conjI [OF r conjI [OF u conjI [OF a2 t2]]]]])
qed

section \<open>Applying the instructions\<close>

lemma moved_append:
  "moved party u (ts @ [x]) = moved party u ts + (if party x = u then amount_of x else 0)"
  by (simp add: moved_def)

lemma moved_Cons:
  "moved party u (x # ts) = (if party x = u then amount_of x else 0) + moved party u ts"
  by (simp add: moved_def)

lemma moved_absent: "u \<notin> party ` set ts \<Longrightarrow> moved party u ts = 0"
proof -
  assume "u \<notin> party ` set ts"
  then have "filter (\<lambda>x. party x = u) ts = []" by (auto simp: filter_empty_conv)
  then show ?thesis by (simp add: moved_def)
qed

lemma moved_nonneg: "\<forall>x\<in>set ts. 0 \<le> amount_of x \<Longrightarrow> 0 \<le> moved party u ts"
  unfolding moved_def by (rule sum_list_nonneg) auto

lemma distinct_fst_nth:
  "distinct (map fst xs) \<Longrightarrow> p < length xs \<Longrightarrow> q < length xs \<Longrightarrow> p \<noteq> q
   \<Longrightarrow> fst (xs ! p) \<noteq> fst (xs ! q)"
  by (metis distinct_conv_nth length_map nth_map)

lemma side_inv_step:
  assumes inv: "side_inv party entries i current ts"
    and i: "i < length entries"
    and dist: "distinct (map fst entries)"
    and ent: "\<forall>e\<in>set entries. whole_cents (snd e) \<and> 1 / 100 < snd e \<and> snd e < 10 ^ 26"
    and s: "whole_cents s" "0 \<le> s" "s \<le> current"
    and x: "party x = fst (entries ! i)" "amount_of x = s"
    and adv: "advance entries i (dec_sub current s) = (i', current')"
  shows "side_inv party entries i' current' (ts @ [x])"
proof -
  let ?n = "length entries"
  from inv i have cur: "whole_cents current" "1 / 100 \<le> current"
    and le: "current \<le> snd (entries ! i)"
    and m: "moved party (fst (entries ! i)) ts = snd (entries ! i) - current"
    unfolding side_inv_def by simp_all
  from inv have before: "\<forall>p<i. moved party (fst (entries ! p)) ts = snd (entries ! p)"
    and after: "\<forall>p. i < p \<and> p < ?n \<longrightarrow> fst (entries ! p) \<notin> party ` set ts"
    and amts: "\<forall>x\<in>set ts. whole_cents (amount_of x) \<and> 0 \<le> amount_of x"
    unfolding side_inv_def by blast+
  from inv i have tot: "sum_list (map amount_of ts)
       = sum_list (map snd (take i entries)) + (snd (entries ! i) - current)"
    unfolding side_inv_def by simp
  have "entries ! i \<in> set entries" using i by simp
  with ent have bound: "snd (entries ! i) < 10 ^ 26" by blast
  define r where "r = current - s"
  have r: "whole_cents r" "0 \<le> r" "r \<le> snd (entries ! i)"
    using cur(1) s le by (simp_all add: r_def whole_cents_diff)
  have "\<bar>current - s\<bar> < 10 ^ 26" using r(2,3) bound unfolding r_def by linarith
  with cur(1) s(1) have "dec_sub current s = r" unfolding r_def by (rule dec_sub_cents)
  with adv have adv': "advance entries i r = (i', current')" by simp
  have amts': "\<forall>y\<in>set (ts @ [x]). whole_cents (amount_of y) \<and> 0 \<le> amount_of y"
    using amts s(1,2) x(2) by simp
  have mi: "moved party (fst (entries ! i)) (ts @ [x]) = snd (entries ! i) - r"
    using m x by (simp add: moved_append r_def)
  have mo: "moved party (fst (entries ! p)) (ts @ [x]) = moved party (fst (entries ! p)) ts"
    if "p < ?n" "p \<noteq> i" for p
    using distinct_fst_nth[OF dist that(1) i that(2)] x(1) by (simp add: moved_append)
  have tot': "sum_list (map amount_of (ts @ [x]))
       = sum_list (map snd (take i entries)) + (snd (entries ! i) - r)"
    using tot x(2) by (simp add: r_def)
  have after': "fst (entries ! p) \<notin> party ` set (ts @ [x])" if "i < p" "p < ?n" for p
  proof -
    have "fst (entries ! p) \<noteq> fst (entries ! i)"
      using distinct_fst_nth[OF dist that(2) i] that(1) by simp
    then show ?thesis using after that x(1) by auto
  qed
  show ?thesis
  proof (cases "r < 1 / 100")
    case False
    then have e: "i' = i" "current' = r" using adv' by (simp_all add: advance_def)
    have r1: "1 / 100 \<le> r" using False by simp
    have b: "\<forall>p<i. moved party (fst (entries ! p)) (ts @ [x]) = snd (entries ! p)"
      using before mo i by simp
    have a: "\<forall>p. i < p \<and> p < ?n \<longrightarrow> fst (entries ! p) \<notin> party ` set (ts @ [x])"
      using after' by blast
    have t: "sum_list (map amount_of (ts @ [x]))
       = sum_list (map snd (take i entries)) + (if i < ?n then snd (entries ! i) - r else 0)"
      using tot' i by simp
    have il: "i \<le> ?n" using i by simp
    have c: "i < ?n \<longrightarrow> whole_cents r \<and> 1 / 100 \<le> r \<and> r \<le> snd (entries ! i) \<and>
        moved party (fst (entries ! i)) (ts @ [x]) = snd (entries ! i) - r"
      using r(1,3) r1 mi by simp
    show ?thesis
      unfolding side_inv_def e
      by (rule conjI [OF il conjI [OF c conjI [OF b conjI [OF a conjI [OF amts' t]]]]])
  next
    case True
    then have r0: "r = 0" using r by (simp add: whole_cents_small)
    have e: "i' = Suc i" "current' = (if Suc i < ?n then snd (entries ! Suc i) else r)"
      using adv' True by (auto simp: advance_def)
    have b: "\<forall>p<Suc i. moved party (fst (entries ! p)) (ts @ [x]) = snd (entries ! p)"
    proof (intro allI impI)
      fix p assume p: "p < Suc i"
      show "moved party (fst (entries ! p)) (ts @ [x]) = snd (entries ! p)"
      proof (cases "p = i")
        case True
        then show ?thesis using mi r0 by simp
      next
        case False
        then have "p < i" using p by simp
        then show ?thesis using mo[of p] before i False by simp
      qed
    qed
    have a: "\<forall>p. Suc i < p \<and> p < ?n \<longrightarrow> fst (entries ! p) \<notin> party ` set (ts @ [x])"
      using after' by simp
    have t: "sum_list (map amount_of (ts @ [x])) = sum_list (map snd (take (Suc i) entries))"
      using tot' r0 i by (simp add: take_Suc_conv_app_nth)
    have si: "Suc i \<le> ?n" using i by simp
    show ?thesis
    proof (cases "Suc i < ?n")
      case False
      have t2: "sum_list (map amount_of (ts @ [x])) = sum_list (map snd (take (Suc i) entries))
          + (if Suc i < ?n then snd (entries ! Suc i) - current' else 0)"
        using t False by simp
      have c: "Suc i < ?n \<longrightarrow> whole_cents current' \<and> 1 / 100 \<le> current' \<and>
          current' \<le> snd (entries ! Suc i) \<and>
          moved party (fst (entries ! Suc i)) (ts @ [x]) = snd (entries ! Suc i) - current'"
        using False by simp
      show ?thesis unfolding side_inv_def e(1)
        by (rule conjI [OF si conjI [OF c conjI [OF b conjI [OF a conjI [OF amts' t2]]]]])
    next
      case True
      have c': "current' = snd (entries ! Suc i)" using e(2) True by simp
      have mem: "entries ! Suc i \<in> set entries" using True by simp
      with ent have c: "whole_cents (snd (entries ! Suc i))" "1 / 100 \<le> snd (entries ! Suc i)"
        by fastforce+
      have "fst (entries ! Suc i) \<notin> party ` set (ts @ [x])"
        using after'[of "Suc i"] True by simp
      then have "moved party (fst (entries ! Suc i)) (ts @ [x]) = 0"
        by (rule moved_absent)
      then have m0: "moved party (fst (entries ! Suc i)) (ts @ [x])
          = snd (entries ! Suc i) - snd (entries ! Suc i)" by simp
      have t2: "sum_list (map amount_of (ts @ [x])) = sum_list (map snd (take (Suc i) entries))
          + (if Suc i < ?n then snd (entries ! Suc i) - snd (entries ! Suc i) else 0)"
        using t by simp
      have l: "snd (entries ! Suc i) \<le> snd (entries ! Suc i)" by simp
      have c2: "Suc i < ?n \<longrightarrow> whole_cents (snd (entries ! Suc i)) \<and>
          1 / 100 \<le> snd (entries ! Suc i) \<and> snd (entries ! Suc i) \<le> snd (entries ! Suc i) \<and>
          moved party (fst (entries ! Suc i)) (ts @ [x])
            = snd (entries ! Suc i) - snd (entries ! Suc i)"
        using c l m0 by blast
      show ?thesis unfolding side_inv_def e(1) c'
        by (rule conjI [OF si conjI [OF c2 conjI [OF b conjI [OF a conjI [OF amts' t2]]]]])
    qed
  qed
qed

lemma sweep_step_inv:
  assumes wd: "well_formed_entries debtors" and wc: "well_formed_entries creditors"
    and c: "sweep_cond debtors creditors st" and inv: "sweep_inv debtors creditors st"
  shows "sweep_inv debtors creditors (sweep_step debtors creditors st)"
proof -
  obtain i j cd cc ts where st: "st = (i, j, cd, cc, ts)" by (metis prod_cases5)
  from c st have i: "i < length debtors" and j: "j < length creditors"
    by (simp_all add: sweep_cond_def)
  from inv st have id: "side_inv payer_of debtors i cd ts"
    and ic: "side_inv receiver_of creditors j cc ts"
    by (simp_all add: sweep_inv_def)
  from id i have cd: "whole_cents cd" "1 / 100 \<le> cd" by (simp_all add: side_inv_def)
  from ic j have cc: "whole_cents cc" "1 / 100 \<le> cc" by (simp_all add: side_inv_def)
  define s where "s = min cd cc"
  define x where "x = (fst (debtors ! i), fst (creditors ! j), s)"
  obtain i' cd' where ad: "advance debtors i (dec_sub cd s) = (i', cd')" by (metis surj_pair)
  obtain j' cc' where ac: "advance creditors j (dec_sub cc s) = (j', cc')" by (metis surj_pair)
  have step: "sweep_step debtors creditors st = (i', j', cd', cc', ts @ [x])"
    using ad ac by (simp add: st sweep_step_def Let_def s_def x_def)
  have s: "whole_cents s" "0 \<le> s" "s \<le> cd" "s \<le> cc"
    using cd cc by (simp_all add: s_def whole_cents_min)
  have xp: "payer_of x = fst (debtors ! i)" "receiver_of x = fst (creditors ! j)"
    "amount_of x = s"
    by (simp_all add: x_def payer_of_def receiver_of_def amount_of_def)
  have "side_inv payer_of debtors i' cd' (ts @ [x])"
    using wd by (intro side_inv_step[OF id i _ _ s(1,2,3) xp(1,3) ad])
      (simp_all add: well_formed_entries_def)
  moreover have "side_inv receiver_of creditors j' cc' (ts @ [x])"
    using wc by (intro side_inv_step[OF ic j _ _ s(1,2,4) xp(2,3) ac])
      (simp_all add: well_formed_entries_def)
  ultimately show ?thesis by (simp add: step sweep_inv_def)
qed

lemma sweep_final_inv:
  assumes wd: "well_formed_entries debtors" and wc: "well_formed_entries creditors"
  shows "sweep_inv debtors creditors st \<Longrightarrow>
    \<exists>i j cd cc. \<not> sweep_cond debtors creditors (i, j, cd, cc, sweep debtors creditors st) \<and>
      sweep_inv debtors creditors (i, j, cd, cc, sweep debtors creditors st)"
  using wd wc
proof (induction debtors creditors st rule: sweep.induct)
  case (1 debtors creditors st)
  show ?case
  proof (cases "sweep_cond debtors creditors st")
    case False
    obtain i j cd cc ts where st: "st = (i, j, cd, cc, ts)" by (metis prod_cases5)
    have "sweep debtors creditors st = ts" using False st by (simp add: sweep.simps)
    with False "1.prems"(1) st show ?thesis by auto
  next
    case True
    have eq: "sweep debtors creditors st = sweep debtors creditors (sweep_step debtors creditors st)"
      using True by (subst sweep.simps) simp
    have "sweep_inv debtors creditors (sweep_step debtors creditors st)"
      using "1.prems" True by (intro sweep_step_inv)
    from "1.IH"[OF True this "1.prems"(2,3)] show ?thesis unfolding eq .
  qed
qed

lemma sum_take_nth_le:
  fixes xs :: "(string \<times> decimal) list"
  assumes "\<forall>e\<in>set xs. 0 \<le> snd e" "i < length xs"
  shows "sum_list (map snd (take i xs)) + snd (xs ! i) \<le> sum_list (map snd xs)"
proof -
  have "xs = take i xs @ xs ! i # drop (Suc i) xs"
    using assms(2) by (rule id_take_nth_drop)
  then have "sum_list (map snd xs)
      = sum_list (map snd (take i xs)) + snd (xs ! i) + sum_list (map snd (drop (Suc i) xs))"
    by (metis (no_types, lifting) add.assoc list.simps(9) map_append sum_list.Cons sum_list_append)
  moreover have "0 \<le> sum_list (map snd (drop (Suc i) xs))"
    using assms(1) by (intro sum_list_nonneg) (auto dest: in_set_dropD)
  ultimately show ?thesis by simp
qed

lemma side_inv_settled:
  assumes inv: "side_inv party entries i current ts"
    and ent: "\<forall>e\<in>set entries. 0 \<le> snd e"
    and tot: "sum_list (map snd entries) - sum_list (map amount_of ts) \<le> 1 / 100"
    and p: "p < length entries" "fst (entries ! p) \<in> party ` set ts"
  shows "\<bar>snd (entries ! p) - moved party (fst (entries ! p)) ts\<bar> \<le> 1 / 100"
proof -
  have "\<not> i < p" using inv p unfolding side_inv_def by blast
  then consider "p < i" | "p = i" by linarith
  then show ?thesis
  proof cases
    case 1
    then have "moved party (fst (entries ! p)) ts = snd (entries ! p)"
      using inv unfolding side_inv_def by blast
    then show ?thesis by simp
  next
    case 2
    with p(1) have i: "i < length entries" by simp
    from inv i have cur: "1 / 100 \<le> current"
      and m: "moved party (fst (entries ! i)) ts = snd (entries ! i) - current"
      and t: "sum_list (map amount_of ts)
         = sum_list (map snd (take i entries)) + (snd (entries ! i) - current)"
      unfolding side_inv_def by simp_all
    from sum_take_nth_le[OF ent i] t tot have "current \<le> 1 / 100" by simp
    with cur m 2 show ?thesis by simp
  qed
qed

lemma side_inv_moved_le:
  assumes inv: "side_inv party entries i current ts"
    and ent: "\<forall>e\<in>set entries. 0 \<le> snd e"
    and p: "p < length entries"
  shows "moved party (fst (entries ! p)) ts \<le> snd (entries ! p)"
proof -
  have nn: "0 \<le> snd (entries ! p)" using ent p by simp
  consider "p < i" | "p = i" | "i < p" by linarith
  then show ?thesis
  proof cases
    case 1
    then have "moved party (fst (entries ! p)) ts = snd (entries ! p)"
      using inv unfolding side_inv_def by blast
    then show ?thesis by simp
  next
    case 2
    with p have i: "i < length entries" by simp
    from inv i have "1 / 100 \<le> current"
      and "moved party (fst (entries ! i)) ts = snd (entries ! i) - current"
      unfolding side_inv_def by simp_all
    with 2 show ?thesis by simp
  next
    case 3
    then have "fst (entries ! p) \<notin> party ` set ts"
      using inv p unfolding side_inv_def by blast
    then have "moved party (fst (entries ! p)) ts = 0" by (rule moved_absent)
    with nn show ?thesis by simp
  qed
qed

lemma dict_get_dict_set:
  "dict_get (dict_set d k v) u dflt = (if u = k then v else dict_get d u dflt)"
  by (induction d) (auto simp: dict_get_def)

lemma apply_transactions_exact:
  "\<forall>x\<in>set ts. whole_cents (amount_of x) \<and> 0 \<le> amount_of x \<Longrightarrow>
   \<forall>u. whole_cents (dict_get d u 0) \<and> \<bar>dict_get d u 0\<bar> < 10 ^ 26 \<Longrightarrow>
   payer_of ` set ts \<inter> receiver_of ` set ts = {} \<Longrightarrow>
   \<forall>u\<in>payer_of ` set ts. dict_get d u 0 + moved payer_of u ts \<le> 0 \<Longrightarrow>
   \<forall>u\<in>receiver_of ` set ts. 0 \<le> dict_get d u 0 - moved receiver_of u ts \<Longrightarrow>
   dict_get (apply_transactions d ts) u 0
     = dict_get d u 0 + moved payer_of u ts - moved receiver_of u ts"
proof (induction ts arbitrary: d)
  case Nil
  show ?case by (simp add: moved_def)
next
  case (Cons x rest)
  obtain f t a where x: "x = (f, t, a)" by (cases x) auto
  have px: "payer_of x = f" "receiver_of x = t" "amount_of x = a"
    by (simp_all add: x payer_of_def receiver_of_def amount_of_def)
  have a: "whole_cents a" "0 \<le> a" using Cons.prems(1) px(3) by auto
  have amts: "\<forall>y\<in>set rest. whole_cents (amount_of y) \<and> 0 \<le> amount_of y"
    using Cons.prems(1) by simp
  then have nn: "\<forall>y\<in>set rest. 0 \<le> amount_of y" by blast
  have fp: "f \<in> payer_of ` set (x # rest)" using px(1) by force
  have tr: "t \<in> receiver_of ` set (x # rest)" using px(2) by force
  have ft: "f \<noteq> t" using fp tr Cons.prems(3) by blast
  have wf: "whole_cents (dict_get d f 0)" and bf: "\<bar>dict_get d f 0\<bar> < 10 ^ 26"
    and wt: "whole_cents (dict_get d t 0)" and bt: "\<bar>dict_get d t 0\<bar> < 10 ^ 26"
    using Cons.prems(2) by blast+
  have df: "dict_get d f 0 + a + moved payer_of f rest \<le> 0"
    using Cons.prems(4) fp px by (simp add: moved_Cons add.assoc)
  have dt: "0 \<le> dict_get d t 0 - a - moved receiver_of t rest"
    using Cons.prems(5) tr px by (simp add: moved_Cons diff_diff_eq)
  have "\<bar>dict_get d f 0 + a\<bar> < 10 ^ 26"
    using df a(2) moved_nonneg[OF nn, of payer_of f] bf by linarith
  with wf a(1) have ex1: "dec_add (dict_get d f 0) a = dict_get d f 0 + a"
    by (rule dec_add_cents)
  have "\<bar>dict_get d t 0 - a\<bar> < 10 ^ 26"
    using dt a(2) moved_nonneg[OF nn, of receiver_of t] bt by linarith
  with wt a(1) have ex2: "dec_sub (dict_get d t 0) a = dict_get d t 0 - a"
    by (rule dec_sub_cents)
  define b2 where
    "b2 = dict_set (dict_set d f (dict_get d f 0 + a)) t (dict_get d t 0 - a)"
  have step: "apply_transactions d (x # rest) = apply_transactions b2 rest"
    using ft by (simp add: x Let_def ex1 dict_get_dict_set ex2 b2_def)
  have get: "dict_get b2 v 0
      = (if v = t then dict_get d t 0 - a else if v = f then dict_get d f 0 + a
         else dict_get d v 0)" for v
    by (simp add: b2_def dict_get_dict_set)
  have p2: "\<forall>v. whole_cents (dict_get b2 v 0) \<and> \<bar>dict_get b2 v 0\<bar> < 10 ^ 26"
  proof
    fix v
    have "whole_cents (dict_get d v 0)" "\<bar>dict_get d v 0\<bar> < 10 ^ 26"
      using Cons.prems(2) by blast+
    then show "whole_cents (dict_get b2 v 0) \<and> \<bar>dict_get b2 v 0\<bar> < 10 ^ 26"
      using \<open>\<bar>dict_get d f 0 + a\<bar> < 10 ^ 26\<close> \<open>\<bar>dict_get d t 0 - a\<bar> < 10 ^ 26\<close> wf wt a(1)
      by (simp add: get whole_cents_add whole_cents_diff)
  qed
  have p3: "payer_of ` set rest \<inter> receiver_of ` set rest = {}"
    using Cons.prems(3) by auto
  have p4: "\<forall>v\<in>payer_of ` set rest. dict_get b2 v 0 + moved payer_of v rest \<le> 0"
  proof
    fix v assume v: "v \<in> payer_of ` set rest"
    then have vp: "v \<in> payer_of ` set (x # rest)" by auto
    then have vt: "v \<noteq> t" using tr Cons.prems(3) by blast
    show "dict_get b2 v 0 + moved payer_of v rest \<le> 0"
    proof (cases "v = f")
      case True
      then show ?thesis using df vt by (simp add: get)
    next
      case False
      have "dict_get d v 0 + moved payer_of v (x # rest) \<le> 0" using Cons.prems(4) vp by blast
      then show ?thesis using False vt px by (simp add: get moved_Cons)
    qed
  qed
  have p5: "\<forall>v\<in>receiver_of ` set rest. 0 \<le> dict_get b2 v 0 - moved receiver_of v rest"
  proof
    fix v assume v: "v \<in> receiver_of ` set rest"
    then have vr: "v \<in> receiver_of ` set (x # rest)" by auto
    then have vf: "v \<noteq> f" using fp Cons.prems(3) by blast
    show "0 \<le> dict_get b2 v 0 - moved receiver_of v rest"
    proof (cases "v = t")
      case True
      then show ?thesis using dt by (simp add: get)
    next
      case False
      have "0 \<le> dict_get d v 0 - moved receiver_of v (x # rest)" using Cons.prems(5) vr by blast
      then show ?thesis using False vf px by (simp add: get moved_Cons)
    qed
  qed
  have "dict_get (apply_transactions b2 rest) u 0
      = dict_get b2 u 0 + moved payer_of u rest - moved receiver_of u rest"
    using amts p2 p3 p4 p5 by (rule Cons.IH)
  then show ?case unfolding step using ft px by (auto simp: get moved_Cons)
qed

lemma distinct_fst_insort_key:
  "distinct (map fst (insort_key k x xs)) \<longleftrightarrow> fst x \<notin> fst ` set xs \<and> distinct (map fst xs)"
  by (induction xs) (auto simp: set_insort_key)

lemma distinct_fst_sort_key:
  "distinct (map fst (sort_key k xs)) \<longleftrightarrow> distinct (map fst xs)"
  by (induction xs) (simp_all add: distinct_fst_insort_key)

lemma sum_list_insort_key:
  fixes f :: "'a \<Rightarrow> rat"
  shows "sum_list (map f (insort_key k x xs)) = f x + sum_list (map f xs)"
  by (induction xs) simp_all

lemma sum_list_sort_key:
  fixes f :: "'a \<Rightarrow> rat"
  shows "sum_list (map f (sort_key k xs)) = sum_list (map f xs)"
  by (induction xs) (simp_all add: sum_list_insort_key)

lemma debtors_of_exact:
  assumes "\<forall>(user, balance)\<in>set balances. whole_cents balance \<and> \<bar>balance\<bar> < 10 ^ 26"
  shows "debtors_of balances = sort_largest_first
     (map (\<lambda>(user, balance). (user, \<bar>balance\<bar>))
        (filter (\<lambda>(user, balance). balance < - (1 / 100)) balances))"
proof -
  have "map (\<lambda>(user, balance). (user, dec_abs balance))
          (filter (\<lambda>(user, balance). balance < - (1 / 100)) balances)
      = map (\<lambda>(user, balance). (user, \<bar>balance\<bar>))
          (filter (\<lambda>(user, balance). balance < - (1 / 100)) balances)"
  proof (rule map_cong [OF refl])
    fix x assume "x \<in> set (filter (\<lambda>(user, balance). balance < - (1 / 100)) balances)"
    then have m: "x \<in> set balances" by simp
    obtain u b where x: "x = (u, b)" by (cases x) auto
    from assms m x have "whole_cents b" "\<bar>b\<bar> < 10 ^ 26" by blast+
    then have "dec_abs b = \<bar>b\<bar>" by (rule dec_abs_cents)
    then show "(case x of (user, balance) \<Rightarrow> (user, dec_abs balance))
        = (case x of (user, balance) \<Rightarrow> (user, \<bar>balance\<bar>))"
      by (simp add: x)
  qed
  then show ?thesis by (simp only: debtors_of_def)
qed

lemma debtors_of_well_formed:
  assumes "distinct (map fst balances)"
    and "\<forall>(user, balance)\<in>set balances. whole_cents balance \<and> \<bar>balance\<bar> < 10 ^ 26"
  shows "well_formed_entries (debtors_of balances)"
proof -
  let ?f = "filter (\<lambda>(user, balance). balance < - (1 / 100)) balances"
  have "fst \<circ> (\<lambda>(user, balance). (user, \<bar>balance :: rat\<bar>)) = (fst :: string \<times> rat \<Rightarrow> string)"
    by (rule ext) (simp add: case_prod_beta)
  moreover have "distinct (map fst ?f)" using assms(1) by (rule distinct_map_filter)
  ultimately have "distinct (map fst (debtors_of balances))"
    by (simp add: debtors_of_exact[OF assms(2)] sort_largest_first_def distinct_fst_sort_key)
  moreover have "\<forall>e\<in>set (debtors_of balances).
      whole_cents (snd e) \<and> 1 / 100 < snd e \<and> snd e < 10 ^ 26"
    using assms(2)
    by (auto simp: debtors_of_exact[OF assms(2)] sort_largest_first_def whole_cents_minus)
  ultimately show ?thesis by (simp add: well_formed_entries_def)
qed

lemma creditors_of_well_formed:
  assumes "distinct (map fst balances)"
    and "\<forall>(user, balance)\<in>set balances. whole_cents balance \<and> \<bar>balance\<bar> < 10 ^ 26"
  shows "well_formed_entries (creditors_of balances)"
proof -
  have "distinct (map fst (creditors_of balances))"
    using assms(1)
    by (simp add: creditors_of_def sort_largest_first_def distinct_fst_sort_key distinct_map_filter)
  moreover have "\<forall>e\<in>set (creditors_of balances).
      whole_cents (snd e) \<and> 1 / 100 < snd e \<and> snd e < 10 ^ 26"
    using assms(2) by (auto simp: creditors_of_def sort_largest_first_def)
  ultimately show ?thesis by (simp add: well_formed_entries_def)
qed

lemma sum_debtors_of:
  assumes "\<forall>(user, balance)\<in>set balances. whole_cents balance \<and> \<bar>balance\<bar> < 10 ^ 26"
  shows "sum_list (map snd (debtors_of balances)) = total_debt balances"
  by (simp add: debtors_of_exact[OF assms] sort_largest_first_def sum_list_sort_key
      total_debt_def comp_def case_prod_beta)

lemma sum_creditors_of: "sum_list (map snd (creditors_of balances)) = total_credit balances"
  by (simp add: creditors_of_def sort_largest_first_def sum_list_sort_key
      total_credit_def comp_def case_prod_beta)

lemma side_inv_initial:
  assumes "well_formed_entries entries"
  shows "side_inv party entries 0 (if entries \<noteq> [] then snd (entries ! 0) else 0) []"
proof (cases entries)
  case Nil
  then show ?thesis by (simp add: side_inv_def)
next
  case (Cons e rest)
  with assms have "whole_cents (snd e)" "1 / 100 < snd e"
    by (simp_all add: well_formed_entries_def)
  then show ?thesis using Cons by (simp add: side_inv_def moved_def)
qed

lemma dict_get_member:
  "distinct (map fst d) \<Longrightarrow> (k, v) \<in> set d \<Longrightarrow> dict_get d k dflt = v"
  by (simp add: dict_get_def)

lemma simplify_debts_final_state:
  assumes dist: "distinct (map fst balances)"
    and cents: "\<forall>(user, balance)\<in>set balances. whole_cents balance \<and> \<bar>balance\<bar> < 10 ^ 26"
    and bal: "\<bar>total_debt balances - total_credit balances\<bar> \<le> 1 / 100"
  shows "\<exists>i j cd cc.
      side_inv payer_of (debtors_of balances) i cd (simplify_debts balances) \<and>
      side_inv receiver_of (creditors_of balances) j cc (simplify_debts balances) \<and>
      total_debt balances - sum_list (map amount_of (simplify_debts balances)) \<le> 1 / 100 \<and>
      total_credit balances - sum_list (map amount_of (simplify_debts balances)) \<le> 1 / 100"
proof -
  define ds where "ds = debtors_of balances"
  define cs where "cs = creditors_of balances"
  define st :: sweep_state where
    "st = (0, 0, if ds \<noteq> [] then snd (ds ! 0) else 0, if cs \<noteq> [] then snd (cs ! 0) else 0, [])"
  define ts where "ts = simplify_debts balances"
  have sd: "ts = sweep ds cs st"
    by (simp only: ts_def simplify_debts_def Let_def ds_def cs_def st_def)
  have wd: "well_formed_entries ds" unfolding ds_def
    using dist cents by (rule debtors_of_well_formed)
  have wc: "well_formed_entries cs" unfolding cs_def
    using dist cents by (rule creditors_of_well_formed)
  have "sweep_inv ds cs st"
    unfolding st_def sweep_inv_def
    using side_inv_initial[OF wd, of payer_of] side_inv_initial[OF wc, of receiver_of] by simp
  from sweep_final_inv[OF wd wc this] obtain i j cd cc where
    nc: "\<not> sweep_cond ds cs (i, j, cd, cc, ts)" and iv: "sweep_inv ds cs (i, j, cd, cc, ts)"
    unfolding sd by blast
  from iv have id: "side_inv payer_of ds i cd ts" and ic: "side_inv receiver_of cs j cc ts"
    by (simp_all add: sweep_inv_def)
  from id have i: "i \<le> length ds"
    and td: "sum_list (map amount_of ts)
       = sum_list (map snd (take i ds)) + (if i < length ds then snd (ds ! i) - cd else 0)"
    unfolding side_inv_def by blast+
  from ic have j: "j \<le> length cs"
    and tc: "sum_list (map amount_of ts)
       = sum_list (map snd (take j cs)) + (if j < length cs then snd (cs ! j) - cc else 0)"
    unfolding side_inv_def by blast+
  from nc i j have "i = length ds \<or> j = length cs" by (auto simp: sweep_cond_def)
  then have "sum_list (map amount_of ts) = sum_list (map snd ds)
      \<or> sum_list (map amount_of ts) = sum_list (map snd cs)"
    using td tc by auto
  moreover have sds: "sum_list (map snd ds) = total_debt balances"
    unfolding ds_def using cents by (rule sum_debtors_of)
  moreover have scs: "sum_list (map snd cs) = total_credit balances"
    unfolding cs_def by (rule sum_creditors_of)
  ultimately have "total_debt balances - sum_list (map amount_of ts) \<le> 1 / 100 \<and>
      total_credit balances - sum_list (map amount_of ts) \<le> 1 / 100"
    using bal by linarith
  then show ?thesis
    using id ic unfolding ds_def cs_def ts_def by blast
qed

text \<open>
  Claim C3, as amended. For every balance map of whole-cent balances of magnitude below
  \<open>10\<^sup>2\<^sup>6\<close> in which the total owed by the debtors (balance below -0.01) and the total owed
  to the creditors (balance above 0.01) differ by at most 0.01, applying all instructions
  emitted by \<open>simplify_debts\<close> (adding each amount to the payer's balance and subtracting it
  from the receiver's, in the decimal context's arithmetic) leaves every balance involved in
  at least one instruction within 0.01 of zero. (A dict holds each key once.)
\<close>

theorem simplify_debts_settles:
  assumes dist: "distinct (map fst balances)"
    and cents: "\<forall>(user, balance)\<in>set balances. whole_cents balance \<and> \<bar>balance\<bar> < 10 ^ 26"
    and bal: "\<bar>total_debt balances - total_credit balances\<bar> \<le> 1 / 100"
    and mem: "(from_user, to_user, amount) \<in> set (simplify_debts balances)"
    and inv: "user = from_user \<or> user = to_user"
  shows "\<bar>dict_get (apply_transactions balances (simplify_debts balances)) user 0\<bar> \<le> 1 / 100"
proof -
  let ?ts = "simplify_debts balances"
  let ?ds = "debtors_of balances" and ?cs = "creditors_of balances"
  from simplify_debts_final_state[OF dist cents bal] obtain i j cd cc where
    id: "side_inv payer_of ?ds i cd ?ts" and ic: "side_inv receiver_of ?cs j cc ?ts"
    and td: "total_debt balances - sum_list (map amount_of ?ts) \<le> 1 / 100"
    and tc: "total_credit balances - sum_list (map amount_of ?ts) \<le> 1 / 100"
    by blast
  have wd: "well_formed_entries ?ds" using dist cents by (rule debtors_of_well_formed)
  have wc: "well_formed_entries ?cs" using dist cents by (rule creditors_of_well_formed)
  have nd: "\<forall>e\<in>set ?ds. 0 \<le> snd e" using wd by (fastforce simp: well_formed_entries_def)
  have nc: "\<forall>e\<in>set ?cs. 0 \<le> snd e" using wc by (fastforce simp: well_formed_entries_def)
  have sd: "sum_list (map snd ?ds) - sum_list (map amount_of ?ts) \<le> 1 / 100"
    using td sum_debtors_of[OF cents] by simp
  have sc: "sum_list (map snd ?cs) - sum_list (map amount_of ?ts) \<le> 1 / 100"
    using tc sum_creditors_of[of balances] by simp
  have payers: "\<exists>b p. (u, b) \<in> set balances \<and> b < - (1 / 100) \<and> dict_get balances u 0 = b \<and>
      p < length ?ds \<and> ?ds ! p = (u, - b)"
    if "u \<in> payer_of ` set ?ts" for u
  proof -
    from that obtain t a where "(u, t, a) \<in> set ?ts" by (force simp: payer_of_def)
    from simplify_debts_users[OF this] obtain b where
      b: "(u, b) \<in> set balances" "b < - (1 / 100)" by blast
    have g: "dict_get balances u 0 = b" using dist b(1) by (rule dict_get_member)
    have "(u, \<bar>b\<bar>) \<in> set ?ds"
      using b by (force simp: debtors_of_exact[OF cents] sort_largest_first_def)
    moreover have "\<bar>b\<bar> = - b" using b(2) by simp
    ultimately obtain p where "p < length ?ds" "?ds ! p = (u, - b)"
      by (auto simp: in_set_conv_nth)
    with b g show ?thesis by blast
  qed
  have receivers: "\<exists>b p. (u, b) \<in> set balances \<and> 1 / 100 < b \<and> dict_get balances u 0 = b \<and>
      p < length ?cs \<and> ?cs ! p = (u, b)"
    if "u \<in> receiver_of ` set ?ts" for u
  proof -
    from that obtain f a where "(f, u, a) \<in> set ?ts" by (force simp: receiver_of_def)
    from simplify_debts_users[OF this] obtain b where
      b: "(u, b) \<in> set balances" "1 / 100 < b" by blast
    have g: "dict_get balances u 0 = b" using dist b(1) by (rule dict_get_member)
    have "(u, b) \<in> set ?cs"
      using b by (simp add: creditors_of_def sort_largest_first_def)
    then obtain p where "p < length ?cs" "?cs ! p = (u, b)"
      by (auto simp: in_set_conv_nth)
    with b g show ?thesis by blast
  qed
  have p1: "\<forall>x\<in>set ?ts. whole_cents (amount_of x) \<and> 0 \<le> amount_of x"
    using id unfolding side_inv_def by blast
  have p2: "\<forall>u. whole_cents (dict_get balances u 0) \<and> \<bar>dict_get balances u 0\<bar> < 10 ^ 26"
  proof
    fix u
    show "whole_cents (dict_get balances u 0) \<and> \<bar>dict_get balances u 0\<bar> < 10 ^ 26"
    proof (cases "map_of balances u")
      case None
      then show ?thesis by (simp add: dict_get_def whole_cents_zero)
    next
      case (Some v)
      then have "(u, v) \<in> set balances" by (rule map_of_SomeD)
      with cents have "whole_cents v \<and> \<bar>v\<bar> < 10 ^ 26" by blast
      with Some show ?thesis by (simp add: dict_get_def)
    qed
  qed
  have p3: "payer_of ` set ?ts \<inter> receiver_of ` set ?ts = {}"
  proof (rule ccontr)
    assume "payer_of ` set ?ts \<inter> receiver_of ` set ?ts \<noteq> {}"
    then obtain u where u: "u \<in> payer_of ` set ?ts" "u \<in> receiver_of ` set ?ts" by blast
    from payers[OF u(1)] receivers[OF u(2)] obtain b b' where
      "dict_get balances u 0 = b" "b < - (1 / 100)" "dict_get balances u 0 = b'" "1 / 100 < b'"
      by blast
    then show False by simp
  qed
  have p4: "\<forall>u\<in>payer_of ` set ?ts. dict_get balances u 0 + moved payer_of u ?ts \<le> 0"
  proof
    fix u assume "u \<in> payer_of ` set ?ts"
    from payers[OF this] obtain b p where b: "dict_get balances u 0 = b"
      and p: "p < length ?ds" "?ds ! p = (u, - b)" by blast
    from side_inv_moved_le[OF id nd p(1)] have "moved payer_of u ?ts \<le> - b"
      by (simp add: p(2))
    then show "dict_get balances u 0 + moved payer_of u ?ts \<le> 0" using b by simp
  qed
  have p5: "\<forall>u\<in>receiver_of ` set ?ts. 0 \<le> dict_get balances u 0 - moved receiver_of u ?ts"
  proof
    fix u assume "u \<in> receiver_of ` set ?ts"
    from receivers[OF this] obtain b p where b: "dict_get balances u 0 = b"
      and p: "p < length ?cs" "?cs ! p = (u, b)" by blast
    from side_inv_moved_le[OF ic nc p(1)] have "moved receiver_of u ?ts \<le> b"
      by (simp add: p(2))
    then show "0 \<le> dict_get balances u 0 - moved receiver_of u ?ts" using b by simp
  qed
  have final: "dict_get (apply_transactions balances ?ts) user 0
      = dict_get balances user 0 + moved payer_of user ?ts - moved receiver_of user ?ts"
    using p1 p2 p3 p4 p5 by (rule apply_transactions_exact)
  from inv show ?thesis
  proof
    assume u: "user = from_user"
    then have up: "user \<in> payer_of ` set ?ts" using mem by (force simp: payer_of_def)
    from payers[OF up] obtain b p where b: "dict_get balances user 0 = b"
      and p: "p < length ?ds" "?ds ! p = (user, - b)" by blast
    have "user \<notin> receiver_of ` set ?ts" using up p3 by blast
    then have r0: "moved receiver_of user ?ts = 0" by (rule moved_absent)
    have "fst (?ds ! p) \<in> payer_of ` set ?ts" using up by (simp add: p(2))
    from side_inv_settled[OF id nd sd p(1) this]
    have "\<bar>- b - moved payer_of user ?ts\<bar> \<le> 1 / 100" by (simp add: p(2))
    then show ?thesis unfolding final b r0 by linarith
  next
    assume u: "user = to_user"
    then have ur: "user \<in> receiver_of ` set ?ts" using mem by (force simp: receiver_of_def)
    from receivers[OF ur] obtain b p where b: "dict_get balances user 0 = b"
      and p: "p < length ?cs" "?cs ! p = (user, b)" by blast
    have "user \<notin> payer_of ` set ?ts" using ur p3 by blast
    then have p0: "moved payer_of user ?ts = 0" by (rule moved_absent)
    have "fst (?cs ! p) \<in> receiver_of ` set ?ts" using ur by (simp add: p(2))
    from side_inv_settled[OF ic nc sc p(1) this]
    have "\<bar>b - moved receiver_of user ?ts\<bar> \<le> 1 / 100" by (simp add: p(2))
    then show ?thesis unfolding final b p0 by linarith
  qed
qed

theorem simplify_debts_settles_witness:
  "distinct (map fst [(''a'', 50.01 :: rat), (''b'', - 30), (''c'', - 20)]) \<and>
   ((whole_cents 50.01 \<and> \<bar>50.01 :: rat\<bar> < 10 ^ 26) \<and>
    (whole_cents (- 30) \<and> \<bar>- 30 :: rat\<bar> < 10 ^ 26) \<and>
    (whole_cents (- 20) \<and> \<bar>- 20 :: rat\<bar> < 10 ^ 26)) \<and>
   \<bar>total_debt [(''a'', 50.01), (''b'', - 30), (''c'', - 20)]
      - total_credit [(''a'', 50.01), (''b'', - 30), (''c'', - 20)]\<bar> \<le> 1 / 100 \<and>
   (''c'', ''a'', 20) \<in> set (simplify_debts [(''a'', 50.01), (''b'', - 30), (''c'', - 20)]) \<and>
   \<bar>dict_get (apply_transactions [(''a'', 50.01), (''b'', - 30), (''c'', - 20)]
        (simplify_debts [(''a'', 50.01), (''b'', - 30), (''c'', - 20)])) ''a'' 0\<bar> \<le> 1 / 100 \<and>
   \<bar>dict_get (apply_transactions [(''a'', 50.01), (''b'', - 30), (''c'', - 20)]
        (simplify_debts [(''a'', 50.01), (''b'', - 30), (''c'', - 20)])) ''c'' 0\<bar> \<le> 1 / 100"
proof -
  let ?b = "[(''a'', 50.01 :: rat), (''b'', - 30), (''c'', - 20)]"
  have d: "distinct (map fst ?b)" by simp
  have w: "(whole_cents 50.01 \<and> \<bar>50.01 :: rat\<bar> < 10 ^ 26) \<and>
    (whole_cents (- 30) \<and> \<bar>- 30 :: rat\<bar> < 10 ^ 26) \<and>
    (whole_cents (- 20) \<and> \<bar>- 20 :: rat\<bar> < 10 ^ 26)"
    by (simp add: whole_cents_def)
  have c: "\<forall>(user, balance)\<in>set ?b. whole_cents balance \<and> \<bar>balance\<bar> < 10 ^ 26"
    using w by simp
  have t: "\<bar>total_debt ?b - total_credit ?b\<bar> \<le> 1 / 100" by code_simp
  have m: "(''c'', ''a'', 20) \<in> set (simplify_debts ?b)" by code_simp
  note r1 = simplify_debts_settles [OF d c t m disjI2 [OF refl]]
  note r2 = simplify_debts_settles [OF d c t m disjI1 [OF refl]]
  show ?thesis by (rule conjI [OF d conjI [OF w conjI [OF t conjI [OF m conjI [OF r1 r2]]]]])
qed

text \<open>
  The claim as stated fails on a map that is not balanced, and also on a zero-sum map of
  whole cents: balances within the tolerance are left out of the matching, so what they owe
  stays with the last creditor. It also fails on a balanced map with a balance of 27 digits
  before the decimal point, where the remaining credit is rounded to one decimal.
\<close>

theorem simplify_debts_settles_counterexample:
  "(''bob'', ''alice'', 30) \<in> set (simplify_debts [(''alice'', 50), (''bob'', - 30)]) \<and>
   \<not> \<bar>dict_get (apply_transactions [(''alice'', 50), (''bob'', - 30)]
          (simplify_debts [(''alice'', 50), (''bob'', - 30)])) ''alice'' 0\<bar> \<le> 1 / 100 \<and>
   verify_zero_sum
     [(''a'', 10.03), (''b'', - 10), (''c'', - 0.01), (''d'', - 0.01), (''e'', - 0.01)] (1 / 100) \<and>
   (''b'', ''a'', 10) \<in> set (simplify_debts
     [(''a'', 10.03), (''b'', - 10), (''c'', - 0.01), (''d'', - 0.01), (''e'', - 0.01)]) \<and>
   \<not> \<bar>dict_get (apply_transactions
          [(''a'', 10.03), (''b'', - 10), (''c'', - 0.01), (''d'', - 0.01), (''e'', - 0.01)]
          (simplify_debts
            [(''a'', 10.03), (''b'', - 10), (''c'', - 0.01), (''d'', - 0.01), (''e'', - 0.01)]))
        ''a'' 0\<bar> \<le> 1 / 100 \<and>
   total_debt
     [(''c'', 2 * 10 ^ 26), (''d1'', - 66666666666666666666666666.66),
      (''d2'', - 66666666666666666666666666.66), (''d3'', - 66666666666666666666666666.66),
      (''d4'', - 0.02)]
     = total_credit
     [(''c'', 2 * 10 ^ 26), (''d1'', - 66666666666666666666666666.66),
      (''d2'', - 66666666666666666666666666.66), (''d3'', - 66666666666666666666666666.66),
      (''d4'', - 0.02)] \<and>
   (''d3'', ''c'', 66666666666666666666666666.64) \<in> set (simplify_debts
     [(''c'', 2 * 10 ^ 26), (''d1'', - 66666666666666666666666666.66),
      (''d2'', - 66666666666666666666666666.66), (''d3'', - 66666666666666666666666666.66),
      (''d4'', - 0.02)]) \<and>
   \<not> \<bar>dict_get (apply_transactions
          [(''c'', 2 * 10 ^ 26), (''d1'', - 66666666666666666666666666.66),
           (''d2'', - 66666666666666666666666666.66), (''d3'', - 66666666666666666666666666.66),
           (''d4'', - 0.02)]
          (simplify_debts
            [(''c'', 2 * 10 ^ 26), (''d1'', - 66666666666666666666666666.66),
             (''d2'', - 66666666666666666666666666.66), (''d3'', - 66666666666666666666666666.66),
             (''d4'', - 0.02)]))
        ''d3'' 0\<bar> \<le> 1 / 100"
  by code_simp

end
